theory Spec2Isabelle
  imports Main "HOL-Library.AList" "HOL-Library.Product_Lexorder"
begin

section \<open>Python values and primitives used by \<^verbatim>\<open>pdfreader.py\<close>\<close>

text \<open>
  The reader is Python 2 era code (\<^verbatim>\<open>iteritems\<close>, \<^verbatim>\<open>itervalues\<close>): file data and
  tokens are byte strings, integers are unbounded. Exceptions are values of \<open>exn\<close>;
  a function that can raise returns \<open>exn + 'a\<close> with \<open>Inl\<close> for the exception.
\<close>

datatype exn = StopIteration | ValueError | TypeError | IndexError | KeyError
  | AttributeError | NameError | PdfParseError string

datatype msg = Warning string | Error string

type_synonym key = "int \<times> int"

definition isdigit :: "string \<Rightarrow> bool" where
  \<comment> \<open>\<^verbatim>\<open>str.isdigit()\<close> on a byte string: non-empty, ASCII digits only.\<close>
  "isdigit s \<longleftrightarrow> s \<noteq> [] \<and> list_all (\<lambda>c. c \<in> set ''0123456789'') s"

definition is_space :: "char \<Rightarrow> bool" where
  "is_space c \<longleftrightarrow> c \<in> set [CHR '' '', CHR 0x09, CHR 0x0A, CHR 0x0B, CHR 0x0C, CHR 0x0D]"

definition strip :: "string \<Rightarrow> string" where
  "strip s = rev (dropWhile is_space (rev (dropWhile is_space s)))"

definition digit_val :: "char \<Rightarrow> int" where
  "digit_val c = int (of_char c) - 48"

definition py_int :: "string \<Rightarrow> exn + int" where
  \<comment> \<open>\<^verbatim>\<open>int(s)\<close> for a string: surrounding whitespace, an optional sign, decimal digits;
      anything else raises ValueError.\<close>
  "py_int s =
     (let t = strip s;
          neg = (case t of [] \<Rightarrow> False | c # r \<Rightarrow> c = CHR ''-'');
          ds = (case t of [] \<Rightarrow> [] | c # r \<Rightarrow> if c = CHR ''-'' \<or> c = CHR ''+'' then r else t)
      in if isdigit ds
         then Inr ((if neg then - 1 else 1) * foldl (\<lambda>a c. 10 * a + digit_val c) 0 ds)
         else Inl ValueError)"

definition norm_index :: "nat \<Rightarrow> int \<Rightarrow> nat" where
  \<comment> \<open>How a slice bound is clipped: a negative bound counts from the end.\<close>
  "norm_index n i = (if i < 0 then nat (max (i + int n) 0) else min (nat i) n)"

definition py_slice :: "'a list \<Rightarrow> int \<Rightarrow> int \<Rightarrow> 'a list" where
  \<comment> \<open>\<^verbatim>\<open>s[a:b]\<close>\<close>
  "py_slice s a b =
     (let lo = norm_index (length s) a; hi = norm_index (length s) b
      in take (hi - lo) (drop lo s))"

definition py_index :: "'a list \<Rightarrow> int \<Rightarrow> exn + 'a" where
  \<comment> \<open>\<^verbatim>\<open>s[i]\<close>: IndexError out of range, a negative index counts from the end.\<close>
  "py_index s i =
     (let n = int (length s); j = (if i < 0 then n + i else i)
      in if 0 \<le> j \<and> j < n then Inr (s ! nat j) else Inl IndexError)"

primrec first_occ :: "'a list \<Rightarrow> 'a list \<Rightarrow> nat option" where
  "first_occ sub [] = (if sub = [] then Some 0 else None)"
| "first_occ sub (x # xs) =
     (if take (length sub) (x # xs) = sub then Some 0
      else map_option Suc (first_occ sub xs))"

definition py_find :: "string \<Rightarrow> string \<Rightarrow> int \<Rightarrow> int \<Rightarrow> int" where
  \<comment> \<open>\<^verbatim>\<open>s.find(sub, start, end)\<close> for a non-empty \<open>sub\<close>: the lowest index at which
      \<open>sub\<close> lies within \<^verbatim>\<open>s[start:end]\<close>, or -1.\<close>
  "py_find s sub a b =
     (case first_occ sub (py_slice s a b) of
        None \<Rightarrow> - 1
      | Some i \<Rightarrow> int (norm_index (length s) a) + int i)"

definition py_find_all :: "string \<Rightarrow> string \<Rightarrow> int" where
  \<comment> \<open>\<^verbatim>\<open>s.find(sub)\<close>\<close>
  "py_find_all s sub = (case first_occ sub s of None \<Rightarrow> - 1 | Some i \<Rightarrow> int i)"

definition py_find_from :: "string \<Rightarrow> string \<Rightarrow> int \<Rightarrow> int" where
  \<comment> \<open>\<^verbatim>\<open>s.find(sub, start)\<close>\<close>
  "py_find_from s sub a =
     (case first_occ sub (drop (norm_index (length s) a) s) of
        None \<Rightarrow> - 1
      | Some i \<Rightarrow> int (norm_index (length s) a) + int i)"

primrec last_occ :: "'a list \<Rightarrow> 'a list \<Rightarrow> nat option" where
  "last_occ sub [] = (if sub = [] then Some 0 else None)"
| "last_occ sub (x # xs) =
     (case last_occ sub xs of
        Some i \<Rightarrow> Some (Suc i)
      | None \<Rightarrow> if take (length sub) (x # xs) = sub then Some 0 else None)"

definition py_rindex :: "string \<Rightarrow> string \<Rightarrow> int \<Rightarrow> exn + int" where
  \<comment> \<open>\<^verbatim>\<open>s.rindex(sub, start)\<close> for a non-empty \<open>sub\<close>: the highest index at which
      \<open>sub\<close> lies within \<^verbatim>\<open>s[start:]\<close>; ValueError when there is none.\<close>
  "py_rindex s sub a =
     (case last_occ sub (drop (norm_index (length s) a) s) of
        None \<Rightarrow> Inl ValueError
      | Some i \<Rightarrow> Inr (int (norm_index (length s) a) + int i))"

fun splitlines_from :: "string \<Rightarrow> string \<Rightarrow> string list" where
  \<comment> \<open>The lines of a string after the pending line \<open>cur\<close>: a line ends at LF, at CR
      or at CR LF, and a line break at the very end opens no further line.\<close>
  "splitlines_from cur [] = (if cur = [] then [] else [cur])"
| "splitlines_from cur [c] =
     (if c = CHR 0x0A \<or> c = CHR 0x0D then [cur] else [cur @ [c]])"
| "splitlines_from cur (c # d # cs) =
     (if c = CHR 0x0D \<and> d = CHR 0x0A then cur # splitlines_from [] cs
      else if c = CHR 0x0A \<or> c = CHR 0x0D then cur # splitlines_from [] (d # cs)
      else splitlines_from (cur @ [c]) (d # cs))"

definition py_splitlines :: "string \<Rightarrow> string list" where
  \<comment> \<open>\<^verbatim>\<open>s.splitlines()\<close>\<close>
  "py_splitlines s = splitlines_from [] s"

fun split_from :: "string \<Rightarrow> string \<Rightarrow> string list" where
  "split_from cur [] = (if cur = [] then [] else [cur])"
| "split_from cur (c # cs) =
     (if is_space c then (if cur = [] then split_from [] cs else cur # split_from [] cs)
      else split_from (cur @ [c]) cs)"

definition py_split :: "string \<Rightarrow> string list" where
  \<comment> \<open>\<^verbatim>\<open>s.split()\<close>: the runs of non-blank characters.\<close>
  "py_split s = split_from [] s"

definition setdefault :: "('k \<rightharpoonup> 'v) \<Rightarrow> 'k \<Rightarrow> 'v \<Rightarrow> ('k \<rightharpoonup> 'v)" where
  \<comment> \<open>\<^verbatim>\<open>dict.setdefault(k, v)\<close>, as a map update.\<close>
  "setdefault m k v = (case m k of None \<Rightarrow> m(k \<mapsto> v) | Some _ \<Rightarrow> m)"


section \<open>PDF values, the object table and the token source\<close>

text \<open>
  Tokens and scalar values are \<open>PdfObject\<close> strings. An object that the table holds is
  reached by reference: \<open>Ref a\<close> is the Python reference to the object at address \<open>a\<close>
  of the reader's heap, so that "the same instance" is "the same address". \<open>PyNone\<close> is
  Python's \<^verbatim>\<open>None\<close> (what \<^verbatim>\<open>empty_obj\<close> returns).
\<close>

datatype pdfobj = PdfObject string | PdfArray "pdfobj list"
  | PdfDict "(string \<times> pdfobj) list" | Ref nat | PyNone

text \<open>
  A heap cell is either a placeholder \<open>PdfIndirect key\<close> or a loaded object with the
  attributes the reader writes: \<^verbatim>\<open>obj.indirect\<close>, \<^verbatim>\<open>obj._stream\<close>, and the value
  last assigned through the property \<^verbatim>\<open>obj.stream\<close> (whose setter lives in
  \<^verbatim>\<open>objects.py\<close>, outside this file; the assignment is recorded as made).
\<close>

record pobj =
  val :: pdfobj
  indirect :: "key option"
  raw_stream :: "string option"
  stream_prop :: "string option"

datatype hobj = PdfIndirect key | Obj pobj

text \<open>
  The reader and its token source in one record. \<open>floc\<close> and \<open>tokstart\<close> are the
  cursor of \<^verbatim>\<open>PdfTokens\<close>, \<open>msgs\<close> collects what \<^verbatim>\<open>source.warning\<close> and
  \<^verbatim>\<open>source.error\<close> log (by message template).
\<close>

record reader =
  fdata :: string
  floc :: int
  tokstart :: int
  obj_offsets :: "key \<rightharpoonup> int"
  all_offsets :: "int list"
  msgs :: "msg list"
  indirect_objects :: "key \<rightharpoonup> nat"
  deferred_objects :: "key set"
  heap :: "hobj list"

text \<open>
  The tokenizer \<^verbatim>\<open>PdfTokens\<close> is not part of this file. It is a parameter: given the
  file data and the cursor, the next token with its start and the cursor after it, or
  \<open>None\<close> when the input is exhausted.
\<close>

type_synonym tokenizer = "string \<Rightarrow> int \<Rightarrow> (string \<times> int \<times> int) option"

definition next_tok :: "tokenizer \<Rightarrow> reader \<Rightarrow> exn + string \<times> reader" where
  \<comment> \<open>\<^verbatim>\<open>source.next()\<close>\<close>
  "next_tok tk s =
     (case tk (fdata s) (floc s) of
        None \<Rightarrow> Inl StopIteration
      | Some (t, ts, e) \<Rightarrow> Inr (t, s\<lparr>tokstart := ts, floc := e\<rparr>))"

primrec multiple :: "tokenizer \<Rightarrow> nat \<Rightarrow> reader \<Rightarrow> string list \<times> reader" where
  \<comment> \<open>\<^verbatim>\<open>source.multiple(n)\<close>: up to \<open>n\<close> tokens, fewer at the end of the input.\<close>
  "multiple tk 0 s = ([], s)"
| "multiple tk (Suc n) s =
     (case next_tok tk s of
        Inl e \<Rightarrow> ([], s)
      | Inr (t, s1) \<Rightarrow> (case multiple tk n s1 of (ts, s2) \<Rightarrow> (t # ts, s2)))"

definition warning :: "string \<Rightarrow> reader \<Rightarrow> reader" where
  "warning m s = s\<lparr>msgs := msgs s @ [Warning m]\<rparr>"

definition error :: "string \<Rightarrow> reader \<Rightarrow> reader" where
  "error m s = s\<lparr>msgs := msgs s @ [Error m]\<rparr>"


section \<open>Cross-reference sections\<close>

subsection \<open>\<^verbatim>\<open>parse_xref_table\<close> (lines 394 to 445)\<close>

definition record_offset :: "key \<Rightarrow> int \<Rightarrow> reader \<Rightarrow> reader" where
  \<comment> \<open>\<^verbatim>\<open>setdefault((objnum, generation), offset); add_offset(offset)\<close>\<close>
  "record_offset k offset s =
     s\<lparr>obj_offsets := setdefault (obj_offsets s) k offset,
       all_offsets := all_offsets s @ [offset]\<rparr>"

text \<open>
  The strict pass (lines 402 to 417). \<^verbatim>\<open>objnum\<close> is a variable of the whole method: the
  recovery pass reads what the strict pass left in it, so each loop returns it as well
  (\<open>None\<close> while it is unbound).

  The inner \<^verbatim>\<open>for objnum in range(startobj, startobj + count)\<close>. The result's flag is
  \<open>False\<close> when an exception left the loop (the bare \<^verbatim>\<open>except: pass\<close> catches every
  exception, and what was recorded before it stays recorded).
\<close>

fun xref_rows ::
  "tokenizer \<Rightarrow> nat \<Rightarrow> int \<Rightarrow> int option \<Rightarrow> reader \<Rightarrow> bool \<times> int option \<times> reader" where
  "xref_rows tk 0 objnum var s = (True, var, s)"
| "xref_rows tk (Suc n) objnum var s =
     (case next_tok tk s of
        Inl e \<Rightarrow> (False, Some objnum, s)
      | Inr (t1, s1) \<Rightarrow>
     (case py_int t1 of
        Inl e \<Rightarrow> (False, Some objnum, s1)
      | Inr offset \<Rightarrow>
     (case next_tok tk s1 of
        Inl e \<Rightarrow> (False, Some objnum, s1)
      | Inr (t2, s2) \<Rightarrow>
     (case py_int t2 of
        Inl e \<Rightarrow> (False, Some objnum, s2)
      | Inr generation \<Rightarrow>
     (case next_tok tk s2 of
        Inl e \<Rightarrow> (False, Some objnum, s2)
      | Inr (inuse, s3) \<Rightarrow>
          if inuse = ''n''
          then xref_rows tk n (objnum + 1) (Some objnum)
                 (if offset \<noteq> 0 then record_offset (objnum, generation) offset s3 else s3)
          else if inuse \<noteq> ''f'' then (False, Some objnum, s3)
          else xref_rows tk n (objnum + 1) (Some objnum) s3)))))"

text \<open>
  The outer \<^verbatim>\<open>while 1\<close>. It stops at the token \<^verbatim>\<open>trailer\<close> (flag \<open>True\<close>: the method
  returns) or at an exception (flag \<open>False\<close>: the recovery pass follows). An arbitrary
  tokenizer may feed it forever, hence the fuel; \<open>None\<close> is "out of fuel".
\<close>

fun xref_table_strict ::
  "tokenizer \<Rightarrow> nat \<Rightarrow> int option \<Rightarrow> reader \<Rightarrow> (bool \<times> int option \<times> reader) option" where
  "xref_table_strict tk 0 var s = None"
| "xref_table_strict tk (Suc fuel) var s =
     (case next_tok tk s of
        Inl e \<Rightarrow> Some (False, var, s)
      | Inr (tok, s1) \<Rightarrow>
          if tok = ''trailer'' then Some (True, var, s1)
          else
     (case py_int tok of
        Inl e \<Rightarrow> Some (False, var, s1)
      | Inr startobj \<Rightarrow>
     (case next_tok tk s1 of
        Inl e \<Rightarrow> Some (False, var, s1)
      | Inr (t2, s2) \<Rightarrow>
     (case py_int t2 of
        Inl e \<Rightarrow> Some (False, var, s2)
      | Inr count \<Rightarrow>
     (case xref_rows tk (nat count) startobj var s2 of
        (False, var', s3) \<Rightarrow> Some (False, var', s3)
      | (True, var', s3) \<Rightarrow> xref_table_strict tk fuel var' s3)))))"

text \<open>
  The recovery pass (lines 418 to 445), line by line over the text between the start of
  the table and the last \<^verbatim>\<open>trailer\<close>. A line of two fields sets \<^verbatim>\<open>objnum\<close>; a line
  of three fields is an entry for the current \<^verbatim>\<open>objnum\<close>, recorded with the same
  \<^verbatim>\<open>setdefault\<close> when it is in use with an offset other than 0, and \<^verbatim>\<open>objnum\<close> moves
  on; an empty line is passed over; any other line raises. An entry before \<^verbatim>\<open>objnum\<close>
  is bound raises UnboundLocalError, a NameError.
\<close>

fun recover_lines :: "string list list \<Rightarrow> int option \<Rightarrow> reader \<Rightarrow> exn + reader" where
  "recover_lines [] var s = Inr s"
| "recover_lines (tokens # rest) var s =
     (if length tokens = 2 then
        (case py_int (tokens ! 0) of
           Inl e \<Rightarrow> Inl e
         | Inr n \<Rightarrow> recover_lines rest (Some n) s)
      else if length tokens = 3 then
        (case py_int (tokens ! 0) of
           Inl e \<Rightarrow> Inl e
         | Inr offset \<Rightarrow>
        (case py_int (tokens ! 1) of
           Inl e \<Rightarrow> Inl e
         | Inr generation \<Rightarrow>
        (case var of
           None \<Rightarrow> Inl NameError
         | Some objnum \<Rightarrow>
             recover_lines rest (Some (objnum + 1))
               (if offset \<noteq> 0 \<and> tokens ! 2 = ''n''
                then record_offset (objnum, generation) offset s else s))))
      else if tokens \<noteq> [] then Inl ValueError
      else recover_lines rest var s)"

text \<open>
  Every exception of the recovery pass, also a missing \<^verbatim>\<open>trailer\<close> and the end of the
  input at the final \<^verbatim>\<open>next()\<close>, is caught by the second bare \<^verbatim>\<open>except\<close>, which
  raises \<^verbatim>\<open>Invalid table format\<close> through \<^verbatim>\<open>source.exception\<close>: the load ends there.
  The warning of line 440 goes to the log that \<open>msgs\<close> collects.
\<close>

definition xref_recover :: "tokenizer \<Rightarrow> int \<Rightarrow> int option \<Rightarrow> reader \<Rightarrow> exn + reader" where
  "xref_recover tk start var s =
     (case py_rindex (fdata s) ''trailer'' start of
        Inl e \<Rightarrow> Inl (PdfParseError ''Invalid table format'')
      | Inr end_table \<Rightarrow>
     (case recover_lines (map py_split (py_splitlines (py_slice (fdata s) start end_table))) var s of
        Inl e \<Rightarrow> Inl (PdfParseError ''Invalid table format'')
      | Inr s1 \<Rightarrow>
     (case next_tok tk ((warning ''Badly formatted xref table'' s1)\<lparr>floc := end_table\<rparr>) of
        Inl e \<Rightarrow> Inl (PdfParseError ''Invalid table format'')
      | Inr (t, s2) \<Rightarrow> Inr s2)))"

definition xref_table_from ::
  "tokenizer \<Rightarrow> nat \<Rightarrow> int \<Rightarrow> int option \<Rightarrow> reader \<Rightarrow> (exn + reader) option" where
  \<comment> \<open>The method from the head of the \<^verbatim>\<open>while\<close> loop on, for a table that starts at
      \<open>start\<close>: the strict pass and, when it was left by an exception, the recovery
      pass.\<close>
  "xref_table_from tk fuel start var s =
     (case xref_table_strict tk fuel var s of
        None \<Rightarrow> None
      | Some (True, var', s1) \<Rightarrow> Some (Inr s1)
      | Some (False, var', s1) \<Rightarrow> Some (xref_recover tk start var' s1))"

definition parse_xref_table :: "tokenizer \<Rightarrow> nat \<Rightarrow> reader \<Rightarrow> (exn + reader) option" where
  \<comment> \<open>The whole method: \<^verbatim>\<open>start = source.floc\<close>, \<^verbatim>\<open>objnum\<close> unbound.\<close>
  "parse_xref_table tk fuel s = xref_table_from tk fuel (floc s) None s"


subsection \<open>\<^verbatim>\<open>parse_xref_stream\<close>: decoding the rows (lines 353 to 384)\<close>

text \<open>
  The loop variables are function-level Python variables: a value set in one row is
  still there in the next, and reading one that was never set raises NameError.
\<close>

record row_vars =
  xref_type :: "int option"
  offset_v :: "int option"
  generation_v :: "int option"
  objnum_v :: "int option"
  obstr_idx_v :: "int option"

definition be_int :: "string \<Rightarrow> exn + int" where
  \<comment> \<open>\<^verbatim>\<open>int(hexlify(d), 16)\<close>: the bytes as a big-endian number; ValueError on no bytes.\<close>
  "be_int d =
     (if d = [] then Inl ValueError
      else Inr (foldl (\<lambda>a c. 256 * a + int (of_char c)) 0 d))"

fun read_columns ::
  "string \<Rightarrow> nat \<Rightarrow> int list \<Rightarrow> int \<Rightarrow> row_vars \<Rightarrow> exn + int \<times> row_vars" where
  \<comment> \<open>\<^verbatim>\<open>for i, width in enumerate(entry_sizes)\<close>\<close>
  "read_columns stream i [] stream_offset v = Inr (stream_offset, v)"
| "read_columns stream i (width # ws) stream_offset v =
     (case (if width = 0 then Inr 0
            else be_int (py_slice stream stream_offset (stream_offset + width))) of
        Inl e \<Rightarrow> Inl e
      | Inr di \<Rightarrow>
          if i = 0 then
            read_columns stream (Suc i) ws (stream_offset + width)
              (v\<lparr>xref_type := Some (if di = 0 \<and> width = 0 then 1 else di)\<rparr>)
          else if i = 1 then
            (case xref_type v of
               None \<Rightarrow> Inl NameError
             | Some ty \<Rightarrow>
                 read_columns stream (Suc i) ws (stream_offset + width)
                   (if ty = 1 then v\<lparr>offset_v := Some di\<rparr>
                    else if ty = 2 then v\<lparr>objnum_v := Some di\<rparr> else v))
          else if i = 2 then
            (case xref_type v of
               None \<Rightarrow> Inl NameError
             | Some ty \<Rightarrow>
                 read_columns stream (Suc i) ws (stream_offset + width)
                   (if ty = 1 then v\<lparr>generation_v := Some di\<rparr>
                    else if ty = 2 then v\<lparr>obstr_idx_v := Some di\<rparr> else v))
          else read_columns stream (Suc i) ws (stream_offset + width) v)"

definition finish_row ::
  "int \<Rightarrow> row_vars \<Rightarrow> (int \<rightharpoonup> int list) \<Rightarrow> reader \<Rightarrow> exn + (int \<rightharpoonup> int list) \<times> reader" where
  \<comment> \<open>Lines 376 to 382: record a type 1 row, queue a type 2 row.\<close>
  "finish_row num v object_streams s =
     (case xref_type v of
        None \<Rightarrow> Inl NameError
      | Some ty \<Rightarrow>
          if ty = 1 then
            (case offset_v v of
               None \<Rightarrow> Inl NameError
             | Some offset \<Rightarrow>
                 if offset \<noteq> 0 then
                   (case generation_v v of
                      None \<Rightarrow> Inl NameError
                    | Some generation \<Rightarrow>
                        Inr (object_streams, record_offset (num, generation) offset s))
                 else Inr (object_streams, s))
          else if ty = 2 then
            (case objnum_v v of
               None \<Rightarrow> Inl NameError
             | Some objnum \<Rightarrow>
            (case obstr_idx_v v of
               None \<Rightarrow> Inl NameError
             | Some obstr_idx \<Rightarrow>
                 Inr (object_streams(objnum \<mapsto>
                        (case object_streams objnum of None \<Rightarrow> [] | Some l \<Rightarrow> l) @ [obstr_idx]),
                      s)))
          else Inr (object_streams, s))"

fun xref_stream_rows ::
  "string \<Rightarrow> int list \<Rightarrow> nat \<Rightarrow> int \<Rightarrow> int \<Rightarrow> row_vars \<Rightarrow> (int \<rightharpoonup> int list) \<Rightarrow> reader
    \<Rightarrow> exn + row_vars \<times> (int \<rightharpoonup> int list) \<times> reader" where
  \<comment> \<open>\<^verbatim>\<open>while cnt < size\<close>, with the number of rows still to read as the counter.\<close>
  "xref_stream_rows stream W 0 num stream_offset v os s = Inr (v, os, s)"
| "xref_stream_rows stream W (Suc n) num stream_offset v os s =
     (case read_columns stream 0 W stream_offset v of
        Inl e \<Rightarrow> Inl e
      | Inr (stream_offset', v') \<Rightarrow>
     (case finish_row num v' os s of
        Inl e \<Rightarrow> Inl e
      | Inr (os', s') \<Rightarrow> xref_stream_rows stream W n (num + 1) stream_offset' v' os' s'))"

fun xref_stream_pairs ::
  "string \<Rightarrow> int list \<Rightarrow> (int \<times> int) list \<Rightarrow> row_vars \<Rightarrow> (int \<rightharpoonup> int list) \<Rightarrow> reader
    \<Rightarrow> exn + row_vars \<times> (int \<rightharpoonup> int list) \<times> reader" where
  \<comment> \<open>\<^verbatim>\<open>for num, size in num_pairs\<close>; each pair starts again at \<^verbatim>\<open>stream_offset = 0\<close>.\<close>
  "xref_stream_pairs stream W [] v os s = Inr (v, os, s)"
| "xref_stream_pairs stream W ((num, sz) # ps) v os s =
     (case xref_stream_rows stream W (nat sz) num 0 v os s of
        Inl e \<Rightarrow> Inl e
      | Inr (v', os', s') \<Rightarrow> xref_stream_pairs stream W ps v' os' s')"


section \<open>Concrete inputs for examples\<close>

definition empty_reader :: "string \<Rightarrow> reader" where
  \<comment> \<open>The reader as \<^verbatim>\<open>__init__\<close> sets it up (lines 539 to 552) over file data \<open>d\<close>.\<close>
  "empty_reader d =
     \<lparr>fdata = d, floc = 0, tokstart = 0, obj_offsets = Map.empty, all_offsets = [],
      msgs = [], indirect_objects = Map.empty, deferred_objects = {}, heap = []\<rparr>"

definition example_tk :: "string list \<Rightarrow> tokenizer" where
  \<comment> \<open>A tokenizer for examples: token number \<open>i\<close> of the list occupies position \<open>i\<close>.\<close>
  "example_tk toks d i =
     (if 0 \<le> i \<and> nat i < length toks then Some (toks ! nat i, i, i + 1) else None)"

definition ws_tk :: tokenizer where
  \<comment> \<open>A tokenizer for examples: tokens are the runs of non-blank characters.\<close>
  "ws_tk d i =
     (let rest = drop (nat i) d;
          skipped = int (length (takeWhile is_space rest));
          t = takeWhile (\<lambda>c. \<not> is_space c) (dropWhile is_space rest)
      in if i < 0 \<or> t = [] then None else Some (t, i + skipped, i + skipped + int (length t)))"

definition no_vars :: row_vars where
  "no_vars = \<lparr>xref_type = None, offset_v = None, generation_v = None,
              objnum_v = None, obstr_idx_v = None\<rparr>"


section \<open>Recorded offsets within one section\<close>

lemma next_tok_obj_offsets:
  "next_tok tk s = Inr (t, s1) \<Longrightarrow> obj_offsets s1 = obj_offsets s"
  by (auto simp: next_tok_def split: option.splits)

lemma record_offset_keeps:
  "obj_offsets s key = Some off \<Longrightarrow> obj_offsets (record_offset k offset s) key = Some off"
  by (auto simp: record_offset_def setdefault_def split: option.splits)

lemma xref_rows_keeps:
  "obj_offsets s key = Some off
    \<Longrightarrow> obj_offsets (snd (snd (xref_rows tk n objnum var s))) key = Some off"
  by (induction n arbitrary: objnum var s)
     (auto split: sum.splits dest!: next_tok_obj_offsets simp: record_offset_keeps)

lemma xref_table_strict_keeps:
  "obj_offsets s key = Some off
    \<Longrightarrow> pred_option (\<lambda>r. obj_offsets (snd (snd r)) key = Some off)
          (xref_table_strict tk fuel var s)"
proof (induction fuel arbitrary: var s)
  case 0
  then show ?case by simp
next
  case (Suc fuel)
  show ?case
  proof (cases "next_tok tk s")
    case (Inl e)
    with Suc.prems show ?thesis by simp
  next
    case (Inr p1)
    obtain tok s1 where p1: "p1 = (tok, s1)" by (cases p1)
    have k1: "obj_offsets s1 key = Some off"
      using next_tok_obj_offsets [of tk s tok s1] Inr p1 Suc.prems by simp
    show ?thesis
    proof (cases "tok = ''trailer'' \<or> isl (py_int tok)")
      case True
      with Inr p1 k1 show ?thesis by (auto split: sum.splits)
    next
      case False
      then obtain startobj where so: "py_int tok = Inr startobj" and nt: "tok \<noteq> ''trailer''"
        by (cases "py_int tok") auto
      show ?thesis
      proof (cases "next_tok tk s1")
        case (Inl e)
        with Inr p1 k1 so nt show ?thesis by simp
      next
        case n2: (Inr p2)
        obtain t2 s2 where p2: "p2 = (t2, s2)" by (cases p2)
        have k2: "obj_offsets s2 key = Some off"
          using next_tok_obj_offsets [of tk s1 t2 s2] n2 p2 k1 by simp
        show ?thesis
        proof (cases "py_int t2")
          case (Inl e)
          with Inr p1 so nt n2 p2 k2 show ?thesis by simp
        next
          case cnt: (Inr count)
          obtain ok var' s3 where r: "xref_rows tk (nat count) startobj var s2 = (ok, var', s3)"
            by (cases "xref_rows tk (nat count) startobj var s2")
          have k3: "obj_offsets s3 key = Some off"
            using xref_rows_keeps [OF k2, of tk "nat count" startobj var] r by simp
          from Suc.IH [OF k3, of var'] Inr p1 so nt n2 p2 cnt r k3 show ?thesis
            by (cases ok) simp_all
        qed
      qed
    qed
  qed
qed

lemma recover_lines_keeps:
  "recover_lines ls var s = Inr s' \<Longrightarrow> obj_offsets s key = Some off
    \<Longrightarrow> obj_offsets s' key = Some off"
proof (induction ls arbitrary: var s)
  case Nil
  then show ?case by simp
next
  case (Cons tokens rest)
  from Cons.prems have "\<exists>var1 s1. recover_lines rest var1 s1 = Inr s'
      \<and> obj_offsets s1 key = Some off"
    by (fastforce split: if_splits sum.splits option.splits intro: record_offset_keeps)
  with Cons.IH show ?case by blast
qed

lemma xref_recover_keeps:
  assumes "obj_offsets s key = Some off"
  shows "case xref_recover tk start var s of Inl e \<Rightarrow> True
         | Inr s' \<Rightarrow> obj_offsets s' key = Some off"
proof (cases "xref_recover tk start var s")
  case (Inl e)
  then show ?thesis by simp
next
  case (Inr s')
  then obtain end_table s1 t where
    l: "recover_lines (map py_split (py_splitlines (py_slice (fdata s) start end_table))) var s
          = Inr s1"
    and n: "next_tok tk ((warning ''Badly formatted xref table'' s1)\<lparr>floc := end_table\<rparr>)
          = Inr (t, s')"
    by (auto simp: xref_recover_def split: sum.splits)
  from recover_lines_keeps [OF l assms] have "obj_offsets s1 key = Some off" .
  with next_tok_obj_offsets [OF n] Inr show ?thesis by (simp add: warning_def)
qed

lemma xref_table_from_keeps:
  assumes "obj_offsets s key = Some off"
  shows "pred_option (\<lambda>r. case r of Inl e \<Rightarrow> True | Inr s' \<Rightarrow> obj_offsets s' key = Some off)
           (xref_table_from tk fuel start var s)"
proof (cases "xref_table_strict tk fuel var s")
  case None
  then show ?thesis by (simp add: xref_table_from_def)
next
  case (Some r)
  obtain ok var' s1 where r: "r = (ok, var', s1)" by (cases r)
  from xref_table_strict_keeps [OF assms, of tk fuel var] Some r
  have k: "obj_offsets s1 key = Some off" by simp
  from xref_recover_keeps [OF k, of tk start var'] Some r k show ?thesis
    by (cases ok) (simp_all add: xref_table_from_def)
qed

lemma finish_row_keeps:
  "obj_offsets s key = Some off
    \<Longrightarrow> (case finish_row num v os s of Inl e \<Rightarrow> True
         | Inr r \<Rightarrow> obj_offsets (snd r) key = Some off)"
  by (auto simp: finish_row_def record_offset_keeps split: option.splits)

lemma xref_stream_rows_keeps:
  "obj_offsets s key = Some off
    \<Longrightarrow> (case xref_stream_rows stream W n num so v os s of Inl e \<Rightarrow> True
         | Inr r \<Rightarrow> obj_offsets (snd (snd r)) key = Some off)"
proof (induction n arbitrary: num so v os s)
  case 0
  then show ?case by simp
next
  case (Suc n)
  show ?case
  proof (cases "read_columns stream 0 W so v")
    case (Inl e)
    then show ?thesis by simp
  next
    case (Inr p)
    obtain so' v' where p: "p = (so', v')" by (cases p)
    show ?thesis
    proof (cases "finish_row num v' os s")
      case (Inl e)
      with Inr p show ?thesis by simp
    next
      case fr: (Inr q)
      obtain os' s' where q: "q = (os', s')" by (cases q)
      from finish_row_keeps [OF Suc.prems, of num v' os] fr q
      have "obj_offsets s' key = Some off" by simp
      from Suc.IH [OF this] Inr p fr q show ?thesis by simp
    qed
  qed
qed

lemma xref_stream_pairs_keeps:
  "obj_offsets s key = Some off
    \<Longrightarrow> (case xref_stream_pairs stream W ps v os s of Inl e \<Rightarrow> True
         | Inr r \<Rightarrow> obj_offsets (snd (snd r)) key = Some off)"
proof (induction ps arbitrary: v os s)
  case Nil
  then show ?case by simp
next
  case (Cons p ps)
  obtain num sz where p: "p = (num, sz)" by (cases p)
  show ?case
  proof (cases "xref_stream_rows stream W (nat sz) num 0 v os s")
    case (Inl e)
    with p show ?thesis by simp
  next
    case (Inr r)
    obtain v' os' s' where r: "r = (v', os', s')" by (cases r)
    from xref_stream_rows_keeps [OF Cons.prems, of stream W "nat sz" num 0 v os] Inr r
    have "obj_offsets s' key = Some off" by simp
    from Cons.IH [OF this] Inr r p show ?thesis by simp
  qed
qed


definition example_xref_file :: string where
  \<comment> \<open>A table whose second subsection lists object 3 again and runs one entry over its
      count: the strict pass fails at the last \<^verbatim>\<open>n\<close> and the recovery pass reads the
      table again.\<close>
  "example_xref_file =
     ''xref'' @ [CHR 0x0A] @ ''3 1'' @ [CHR 0x0A] @ ''17 0 n'' @ [CHR 0x0A] @
     ''3 1'' @ [CHR 0x0A] @ ''500 0 n'' @ [CHR 0x0A] @ ''600 0 n'' @ [CHR 0x0A] @
     ''trailer'' @ [CHR 0x0A]"

text \<open>
  C10 (as amended). Within one xref section, classic table or compressed stream, an
  identity's offset is written by \<^verbatim>\<open>setdefault\<close> only: recording an entry stores its
  offset if the identity has none yet and changes nothing otherwise, and whatever the
  rest of the section holds, the parse never overwrites it: not the rest of the
  subsection, not the rest of the method \<^verbatim>\<open>parse_xref_table\<close> from any head of its
  loop (the strict pass and the recovery pass that reads the table a second time), not
  the recovery pass alone, not the rest of the stream's rows or index pairs. So among
  the entries that are recorded at all (in use, offset not 0) the first for an identity
  wins. An in-use entry with offset 0 is skipped by the guard \<^verbatim>\<open>offset != 0\<close> and does
  not count as first.
\<close>

theorem xref_first_recorded_offset_wins:
  "obj_offsets (snd (snd (xref_rows tk n objnum var (record_offset key offset s)))) key
     = Some (case obj_offsets s key of None \<Rightarrow> offset | Some old \<Rightarrow> old)
   \<and> pred_option
     (\<lambda>r. case r of Inl e \<Rightarrow> True
          | Inr s' \<Rightarrow> obj_offsets s' key
                      = Some (case obj_offsets s key of None \<Rightarrow> offset | Some old \<Rightarrow> old))
     (xref_table_from tk fuel start var (record_offset key offset s))
   \<and> (case xref_recover tk start var (record_offset key offset s) of
        Inl e \<Rightarrow> True
      | Inr s' \<Rightarrow> obj_offsets s' key
                  = Some (case obj_offsets s key of None \<Rightarrow> offset | Some old \<Rightarrow> old))
   \<and> (case xref_stream_rows stream W m num so v os (record_offset key offset s) of
        Inl e \<Rightarrow> True
      | Inr r \<Rightarrow> obj_offsets (snd (snd r)) key
                 = Some (case obj_offsets s key of None \<Rightarrow> offset | Some old \<Rightarrow> old))
   \<and> (case xref_stream_pairs stream W pairs v os (record_offset key offset s) of
        Inl e \<Rightarrow> True
      | Inr r \<Rightarrow> obj_offsets (snd (snd r)) key
                 = Some (case obj_offsets s key of None \<Rightarrow> offset | Some old \<Rightarrow> old))"
proof -
  have "obj_offsets (record_offset key offset s) key
          = Some (case obj_offsets s key of None \<Rightarrow> offset | Some old \<Rightarrow> old)"
    by (simp add: record_offset_def setdefault_def split: option.splits)
  then show ?thesis
    by (intro conjI xref_rows_keeps xref_table_from_keeps xref_recover_keeps
        xref_stream_rows_keeps xref_stream_pairs_keeps)
qed

text \<open>
  At the example table the strict pass has recorded offset 17 for object 3 when it meets
  the second subsection (position 16, \<^verbatim>\<open>objnum\<close> is 3). The rest of the method, the
  recovery pass included, records 600 for object 4 and keeps 17 for object 3; so does
  the whole method from the start of the table. In a stream, a second row for object 3
  keeps 17 as well.
\<close>

theorem xref_first_recorded_offset_wins_witness:
  "map_option (map_sum id (\<lambda>s'. (obj_offsets s' (3, 0), obj_offsets s' (4, 0), msgs s')))
      (xref_table_from ws_tk 3 4 (Some 3)
         (record_offset (3, 0) 17 ((empty_reader example_xref_file)\<lparr>floc := 16\<rparr>)))
     = Some (Inr (Some 17, Some 600, [Warning ''Badly formatted xref table'']))
   \<and> map_option (map_sum id (\<lambda>s'. (obj_offsets s' (3, 0), obj_offsets s' (4, 0), all_offsets s')))
      (parse_xref_table ws_tk (Suc 3) ((empty_reader example_xref_file)\<lparr>floc := 4\<rparr>))
     = Some (Inr (Some 17, Some 600, [17, 500, 17, 500, 600]))
   \<and> map_sum id (\<lambda>r. (obj_offsets (snd (snd r)) (3, 0), all_offsets (snd (snd r))))
       (xref_stream_pairs
          [CHR 0x01, CHR 0x01, CHR 0xF4, CHR 0x00, CHR 0x01, CHR 0x02, CHR 0x00, CHR 0x00]
          [1, 2, 1] [(3, 2)] no_vars Map.empty (record_offset (3, 0) 17 (empty_reader [])))
     = Inr (Some 17, [17, 500, 512])"
proof -
  have rest: "map_option (map_sum id (\<lambda>s'. (obj_offsets s' (4, 0), msgs s')))
      (xref_table_from ws_tk 3 4 (Some 3)
         (record_offset (3, 0) 17 ((empty_reader example_xref_file)\<lparr>floc := 16\<rparr>)))
     = Some (Inr (Some 600, [Warning ''Badly formatted xref table'']))"
    by (simp add: xref_table_from_def xref_recover_def numeral_3_eq_3 example_xref_file_def
        empty_reader_def ws_tk_def next_tok_def py_int_def strip_def is_space_def isdigit_def
        digit_val_def record_offset_def setdefault_def py_rindex_def norm_index_def py_slice_def
        py_splitlines_def py_split_def warning_def Let_def)
  have whole: "map_option (map_sum id (\<lambda>s'. (obj_offsets s' (3, 0), obj_offsets s' (4, 0), all_offsets s')))
      (parse_xref_table ws_tk (Suc 3) ((empty_reader example_xref_file)\<lparr>floc := 4\<rparr>))
     = Some (Inr (Some 17, Some 600, [17, 500, 17, 500, 600]))"
    by (simp add: parse_xref_table_def xref_table_from_def xref_recover_def numeral_3_eq_3
        example_xref_file_def
        empty_reader_def ws_tk_def next_tok_def py_int_def strip_def is_space_def isdigit_def
        digit_val_def record_offset_def setdefault_def py_rindex_def norm_index_def py_slice_def
        py_splitlines_def py_split_def warning_def Let_def)
  have str: "map_sum id (\<lambda>r. (obj_offsets (snd (snd r)) (3, 0), all_offsets (snd (snd r))))
       (xref_stream_pairs
          [CHR 0x01, CHR 0x01, CHR 0xF4, CHR 0x00, CHR 0x01, CHR 0x02, CHR 0x00, CHR 0x00]
          [1, 2, 1] [(3, 2)] no_vars Map.empty (record_offset (3, 0) 17 (empty_reader [])))
     = Inr (Some 17, [17, 500, 512])"
    by (simp add: numeral_2_eq_2 finish_row_def be_int_def py_slice_def norm_index_def
        no_vars_def record_offset_def setdefault_def empty_reader_def)
  have none: "obj_offsets ((empty_reader example_xref_file)\<lparr>floc := 16\<rparr>) (3, 0) = None"
    by (simp add: empty_reader_def)
  from rest obtain y where
    y: "xref_table_from ws_tk 3 4 (Some 3)
            (record_offset (3, 0) 17 ((empty_reader example_xref_file)\<lparr>floc := 16\<rparr>))
          = Some y"
    and my: "map_sum id (\<lambda>s'. (obj_offsets s' (4, 0), msgs s')) y
          = Inr (Some 600, [Warning ''Badly formatted xref table''])"
    by auto
  from my obtain s' where ys: "y = Inr s'"
    and s': "obj_offsets s' (4, 0) = Some 600" "msgs s' = [Warning ''Badly formatted xref table'']"
    by (cases y) auto
  from y ys have
    run: "xref_table_from ws_tk 3 4 (Some 3)
            (record_offset (3, 0) 17 ((empty_reader example_xref_file)\<lparr>floc := 16\<rparr>))
          = Some (Inr s')"
    by simp
  from xref_first_recorded_offset_wins
    [where key = "(3, 0)" and s = "(empty_reader example_xref_file)\<lparr>floc := 16\<rparr>"
       and offset = 17 and fuel = 3 and tk = ws_tk and start = 4 and var = "Some 3"]
    run none
  have "obj_offsets s' (3, 0) = Some 17" by simp
  with run s' whole str show ?thesis by simp
qed

text \<open>
  The claim as first stated (the first in-use entry encountered wins) fails where the
  first in-use entry has offset 0: object 3 generation 0 is listed twice, first with
  offset 0, then with offset 500, both flagged \<^verbatim>\<open>n\<close>; the section records 500.
\<close>

theorem xref_first_in_use_entry_counterexample:
  "map_option (map_sum id (\<lambda>s'. obj_offsets s' (3, 0)))
     (parse_xref_table
        (example_tk [''3'', ''1'', ''0'', ''0'', ''n'', ''3'', ''1'', ''500'', ''0'', ''n'', ''trailer''])
        3 (empty_reader []))
   = Some (Inr (Some 500))"
  by (simp add: parse_xref_table_def xref_table_from_def example_tk_def empty_reader_def
      next_tok_def py_int_def strip_def is_space_def
      isdigit_def digit_val_def record_offset_def setdefault_def numeral_3_eq_3)


section \<open>The chain of incremental updates (\<^verbatim>\<open>__init__\<close>, lines 551 to 579)\<close>

text \<open>
  A trailer is a \<^verbatim>\<open>PdfDict\<close>, here a finite map from names to values; assigning
  \<^verbatim>\<open>None\<close> to a key removes it. \<^verbatim>\<open>parsexref\<close> is a parameter of the loop: any function
  from the reader to a trailer and the reader after the section has been parsed, with
  the section's offsets in \<open>obj_offsets\<close>.
\<close>

type_synonym trailer = "string \<rightharpoonup> pdfobj"

type_synonym section_parser = "reader \<Rightarrow> exn + trailer \<times> reader"

definition int_of_obj :: "hobj list \<Rightarrow> pdfobj \<Rightarrow> exn + int" where
  \<comment> \<open>\<^verbatim>\<open>int(x)\<close> for a value: a string converts, a container, a placeholder (a tuple) or
      \<^verbatim>\<open>None\<close> raises TypeError.\<close>
  "int_of_obj h x =
     (case x of
        PdfObject t \<Rightarrow> py_int t
      | Ref a \<Rightarrow>
          if a < length h then
            (case h ! a of
               PdfIndirect k \<Rightarrow> Inl TypeError
             | Obj p \<Rightarrow> (case val p of PdfObject t \<Rightarrow> py_int t | _ \<Rightarrow> Inl TypeError))
          else Inl TypeError
      | _ \<Rightarrow> Inl TypeError)"

fun xref_chain ::
  "section_parser \<Rightarrow> tokenizer \<Rightarrow> nat \<Rightarrow> reader \<Rightarrow> (key \<rightharpoonup> int) list \<Rightarrow> trailer option
    \<Rightarrow> (exn + trailer \<times> (key \<rightharpoonup> int) list \<times> trailer option \<times> reader) option" where
  \<comment> \<open>The \<^verbatim>\<open>while 1\<close> of lines 553 to 575. A chain whose \<^verbatim>\<open>Prev\<close> pointers loop never
      ends: \<open>None\<close> is "out of fuel". \<open>original_trailer\<close> is unbound (\<open>None\<close>) until the
      first section with a \<^verbatim>\<open>Prev\<close>.\<close>
  "xref_chain parsexref tk 0 s xref_list original_trailer = None"
| "xref_chain parsexref tk (Suc fuel) s xref_list original_trailer =
     (case parsexref (s\<lparr>obj_offsets := Map.empty\<rparr>) of
        Inl e \<Rightarrow> Some (Inl e)
      | Inr (trailer, s1) \<Rightarrow>
     (case trailer ''/Prev'' of
        None \<Rightarrow>
          (case next_tok tk s1 of
             Inl e \<Rightarrow> Some (Inl e)
           | Inr (token, s2) \<Rightarrow>
               Some (Inr (trailer, xref_list, original_trailer,
                 if token \<noteq> ''startxref'' \<and> xref_list = []
                 then warning ''Expected startxref at end of xref table'' s2 else s2)))
      | Some prev \<Rightarrow>
          (let original' = (if xref_list = [] then Some (trailer(''/Prev'' := None))
                            else original_trailer)
           in case int_of_obj (heap s1) prev of
                Inl e \<Rightarrow> Some (Inl e)
              | Inr p \<Rightarrow>
                  xref_chain parsexref tk fuel (s1\<lparr>floc := p\<rparr>)
                    (xref_list @ [obj_offsets s1]) original')))"

definition merge_chain :: "(key \<rightharpoonup> int) list \<Rightarrow> reader \<Rightarrow> reader" where
  \<comment> \<open>Lines 577 to 579: the maps of the newer sections, oldest first, update the map of
      the section parsed last.\<close>
  "merge_chain xref_list s =
     (if xref_list \<noteq> [] then
        s\<lparr>obj_offsets := fold (\<lambda>update m. m ++ update) (rev xref_list) (obj_offsets s)\<rparr>
      else s)"

definition read_xrefs ::
  "section_parser \<Rightarrow> tokenizer \<Rightarrow> nat \<Rightarrow> reader
    \<Rightarrow> (exn + trailer \<times> (key \<rightharpoonup> int) list \<times> trailer option \<times> reader) option" where
  \<comment> \<open>Lines 551 to 579: walk the chain, then merge the offsets. The result has the
      variables \<^verbatim>\<open>trailer\<close>, \<^verbatim>\<open>xref_list\<close> and \<^verbatim>\<open>original_trailer\<close> as line 580 finds
      them.\<close>
  "read_xrefs parsexref tk fuel s =
     (case xref_chain parsexref tk fuel (s\<lparr>all_offsets := []\<rparr>) [] None of
        None \<Rightarrow> None
      | Some (Inl e) \<Rightarrow> Some (Inl e)
      | Some (Inr (trailer, xref_list, original_trailer, s1)) \<Rightarrow>
          Some (Inr (trailer, xref_list, original_trailer, merge_chain xref_list s1)))"

text \<open>
  A chain of sections, newest first, linked by \<^verbatim>\<open>Prev\<close>: each entry is the trailer of a
  section and the reader right after that section was parsed; every section but the
  last names the position of the next, the last has no \<^verbatim>\<open>Prev\<close>.
\<close>

fun prev_chain :: "section_parser \<Rightarrow> reader \<Rightarrow> (trailer \<times> reader) list \<Rightarrow> bool" where
  "prev_chain parsexref s [] = False"
| "prev_chain parsexref s ((t, s1) # rest) =
     (parsexref (s\<lparr>obj_offsets := Map.empty\<rparr>) = Inr (t, s1) \<and>
      (case t ''/Prev'' of
         None \<Rightarrow> rest = []
       | Some prev \<Rightarrow>
           (case int_of_obj (heap s1) prev of
              Inl e \<Rightarrow> False
            | Inr p \<Rightarrow> prev_chain parsexref (s1\<lparr>floc := p\<rparr>) rest)))"

lemma xref_chain_on_prev_chain:
  assumes "prev_chain P s secs"
    and "next_tok tk (snd (last secs)) = Inr (token, s_end)"
  shows "xref_chain P tk (length secs) s acc orig =
           Some (Inr (fst (last secs),
                      acc @ map (\<lambda>x. obj_offsets (snd x)) (butlast secs),
                      (if acc = [] \<and> 1 < length secs
                       then Some ((fst (hd secs))(''/Prev'' := None)) else orig),
                      (if token \<noteq> ''startxref'' \<and> acc = [] \<and> length secs = 1
                       then warning ''Expected startxref at end of xref table'' s_end
                       else s_end)))"
  using assms
proof (induction secs arbitrary: s acc orig)
  case Nil
  then show ?case by simp
next
  case (Cons x rest)
  obtain t s1 where x: "x = (t, s1)" by (cases x)
  from Cons.prems(1) x have parse: "P (s\<lparr>obj_offsets := Map.empty\<rparr>) = Inr (t, s1)"
    by simp
  show ?case
  proof (cases "t ''/Prev''")
    case None
    with Cons.prems(1) x have rest: "rest = []" by simp
    with Cons.prems(2) x have nt: "next_tok tk s1 = Inr (token, s_end)" by simp
    with parse None rest nt x show ?thesis by simp
  next
    case (Some prev)
    with Cons.prems(1) x obtain p where p: "int_of_obj (heap s1) prev = Inr p"
      and ch: "prev_chain P (s1\<lparr>floc := p\<rparr>) rest"
      by (auto split: sum.splits)
    from ch have ne: "rest \<noteq> []" by (cases rest) auto
    with Cons.prems(2) have nt: "next_tok tk (snd (last rest)) = Inr (token, s_end)" by simp
    from Cons.IH [OF ch nt, of "acc @ [obj_offsets s1]"
        "if acc = [] then Some (t(''/Prev'' := None)) else orig"]
    have run: "xref_chain P tk (length rest) (s1\<lparr>floc := p\<rparr>) (acc @ [obj_offsets s1])
              (if acc = [] then Some (t(''/Prev'' := None)) else orig) =
            Some (Inr (fst (last rest),
                       (acc @ [obj_offsets s1]) @ map (\<lambda>x. obj_offsets (snd x)) (butlast rest),
                       (if acc = [] then Some (t(''/Prev'' := None)) else orig), s_end))"
      by simp
    from parse Some p run ne x show ?thesis
      by (auto simp: Let_def)
  qed
qed

lemma walk_end_offsets:
  assumes "next_tok tk s1 = Inr (token, s_end)"
  shows "obj_offsets (if c then warning m s_end else s_end) = obj_offsets s1"
  using next_tok_obj_offsets [OF assms] by (simp add: warning_def)

lemma fold_override_rev:
  "fold (\<lambda>update m. m ++ update) (rev xs) m0 = foldr (\<lambda>update m. m ++ update) xs m0"
  by (simp add: foldr_conv_fold)

lemma merged_hd_wins:
  "xs \<noteq> [] \<Longrightarrow> hd xs key = Some off
    \<Longrightarrow> fold (\<lambda>update m. m ++ update) (rev xs) m0 key = Some off"
  by (cases xs) (simp_all add: fold_override_rev map_add_def)


definition example_parsexref :: section_parser where
  \<comment> \<open>A file with two revisions: the newest section is parsed at position 0 and names
      position 100, where the older section lies. Object 1 was rewritten; the \<^verbatim>\<open>Info\<close>
      entry is in the older trailer only.\<close>
  "example_parsexref s =
     (if floc s = 0
      then Inr ([''/Root'' \<mapsto> Ref 0, ''/Prev'' \<mapsto> PdfObject ''100''],
                s\<lparr>obj_offsets := [(1, 0) \<mapsto> 900], floc := 60\<rparr>)
      else Inr ([''/Root'' \<mapsto> Ref 0, ''/Info'' \<mapsto> Ref 1],
                s\<lparr>obj_offsets := [(1, 0) \<mapsto> 15, (2, 0) \<mapsto> 70], floc := 150\<rparr>))"

definition example_sections :: "(trailer \<times> reader) list" where
  "example_sections =
     [([''/Root'' \<mapsto> Ref 0, ''/Prev'' \<mapsto> PdfObject ''100''],
       (empty_reader [])\<lparr>obj_offsets := [(1, 0) \<mapsto> 900], floc := 60\<rparr>),
      ([''/Root'' \<mapsto> Ref 0, ''/Info'' \<mapsto> Ref 1],
       (empty_reader [])\<lparr>obj_offsets := [(1, 0) \<mapsto> 15, (2, 0) \<mapsto> 70], floc := 150\<rparr>)]"

definition example_end_tk :: tokenizer where
  "example_end_tk d i = (if i = 150 then Some (''startxref'', 150, 159) else None)"

lemma example_sections_chain:
  "prev_chain example_parsexref ((empty_reader [])\<lparr>all_offsets := []\<rparr>) example_sections"
  by (simp add: example_sections_def example_parsexref_def empty_reader_def int_of_obj_def
      py_int_def strip_def is_space_def isdigit_def digit_val_def)

lemma example_sections_end:
  "next_tok example_end_tk (snd (last example_sections)) =
     Inr (''startxref'', (snd (last example_sections))\<lparr>tokstart := 150, floc := 159\<rparr>)"
  by (simp add: example_sections_def example_end_tk_def next_tok_def empty_reader_def)

text \<open>
  C1. For a chain of sections \<open>S0\<close> (newest, the head of \<open>secs\<close>) through \<open>Sn\<close>
  (oldest) linked by \<^verbatim>\<open>Prev\<close>, the walk ends, the merge is made, and every identity
  with an entry in \<open>S0\<close> has the offset recorded in \<open>S0\<close> in the merged map, whatever
  the older sections record for it.
\<close>

theorem newest_section_offset_wins:
  assumes "prev_chain parsexref (s\<lparr>all_offsets := []\<rparr>) secs"
    and "next_tok tk (snd (last secs)) = Inr (token, s_end)"
    and "obj_offsets (snd (hd secs)) key = Some off"
  shows "\<exists>trailer xref_list original_trailer s'.
           read_xrefs parsexref tk (length secs) s
             = Some (Inr (trailer, xref_list, original_trailer, s'))
           \<and> obj_offsets s' key = Some off"
proof -
  from assms(1) have ne: "secs \<noteq> []" by (cases secs) auto
  define s1 where "s1 = (if token \<noteq> ''startxref'' \<and> length secs = 1
                       then warning ''Expected startxref at end of xref table'' s_end
                       else s_end)"
  from xref_chain_on_prev_chain [OF assms(1,2), of "[]" None]
  have run: "xref_chain parsexref tk (length secs) (s\<lparr>all_offsets := []\<rparr>) [] None =
            Some (Inr (fst (last secs), map (\<lambda>x. obj_offsets (snd x)) (butlast secs),
                       (if 1 < length secs then Some ((fst (hd secs))(''/Prev'' := None)) else None),
                       s1))"
    by (simp add: s1_def)
  have offs: "obj_offsets s1 = obj_offsets (snd (last secs))"
    unfolding s1_def by (rule walk_end_offsets [OF assms(2)])
  show ?thesis
  proof (cases "butlast secs = []")
    case True
    with ne have "last secs = hd secs" by (cases secs) (auto split: if_splits)
    with run offs True assms(3) show ?thesis
      by (simp add: read_xrefs_def merge_chain_def)
  next
    case False
    then have len: "1 < length secs" by (cases secs) auto
    from False have hd: "hd (map (\<lambda>x. obj_offsets (snd x)) (butlast secs)) = obj_offsets (snd (hd secs))"
      by (cases secs) (auto split: if_splits)
    from False have "map (\<lambda>x. obj_offsets (snd x)) (butlast secs) \<noteq> []" by simp
    from merged_hd_wins [OF this, of key off "obj_offsets s1"] hd assms(3)
    have "fold (\<lambda>update m. m ++ update) (rev (map (\<lambda>x. obj_offsets (snd x)) (butlast secs)))
            (obj_offsets s1) key = Some off" by simp
    with run False len show ?thesis
      by (simp add: read_xrefs_def merge_chain_def)
  qed
qed

theorem newest_section_offset_wins_witness:
  "prev_chain example_parsexref ((empty_reader [])\<lparr>all_offsets := []\<rparr>) example_sections
   \<and> obj_offsets (snd (example_sections ! 1)) (1, 0) = Some 15
   \<and> (\<exists>trailer xref_list original_trailer s'.
         read_xrefs example_parsexref example_end_tk 2 (empty_reader [])
           = Some (Inr (trailer, xref_list, original_trailer, s'))
         \<and> obj_offsets s' (1, 0) = Some 900)"
proof -
  have k: "obj_offsets (snd (hd example_sections)) (1, 0) = Some 900"
    by (simp add: example_sections_def)
  have l: "length example_sections = 2" by (simp add: example_sections_def)
  have o: "obj_offsets (snd (example_sections ! 1)) (1, 0) = Some 15"
    by (simp add: example_sections_def)
  from newest_section_offset_wins [OF example_sections_chain example_sections_end k] l o
    example_sections_chain
  show ?thesis by simp
qed


section \<open>The page tree (\<^verbatim>\<open>readpages\<close>, lines 463 to 490)\<close>

text \<open>
  \<^verbatim>\<open>readnode\<close> is a generator; \<^verbatim>\<open>list(readnode(node))\<close> collects what it yields, and
  an AttributeError or TypeError anywhere discards all of it. The walker sees resolved
  values: the accessors of \<^verbatim>\<open>PdfDict\<close> and \<^verbatim>\<open>PdfArray\<close> (in \<^verbatim>\<open>objects.py\<close>) follow
  references before \<^verbatim>\<open>readnode\<close> gets a node, and a missing key reads as \<^verbatim>\<open>None\<close>.
  Indexing anything but a dictionary by a name raises TypeError, and so does iterating
  \<^verbatim>\<open>None\<close>; iterating a non-empty string or dictionary as \<^verbatim>\<open>Kids\<close> hands
  \<^verbatim>\<open>readnode\<close> a string, which raises TypeError as well. The log is threaded through.
\<close>

lemma map_of_size:
  "map_of d k = Some v \<Longrightarrow> size v < Suc (size_list (size_prod (\<lambda>_. 0) size) d)"
  by (induction d) (auto split: if_splits)

function readnode :: "pdfobj \<Rightarrow> msg list \<Rightarrow> (exn + pdfobj list) \<times> msg list"
  and readkids :: "pdfobj list \<Rightarrow> msg list \<Rightarrow> (exn + pdfobj list) \<times> msg list" where
  "readnode node lg =
     (case node of
        PdfDict d \<Rightarrow>
          if map_of d ''/Type'' = Some (PdfObject ''/Page'') then (Inr [node], lg)
          else if map_of d ''/Type'' = Some (PdfObject ''/Pages'') then
            (case map_of d ''/Kids'' of
               Some (PdfArray ks) \<Rightarrow> readkids ks lg
             | Some (PdfObject t) \<Rightarrow> if t = [] then (Inr [], lg) else (Inl TypeError, lg)
             | Some (PdfDict e) \<Rightarrow> if e = [] then (Inr [], lg) else (Inl TypeError, lg)
             | _ \<Rightarrow> (Inl TypeError, lg))
          else if map_of d ''/Type'' = Some (PdfObject ''/Catalog'') then
            (case map_of d ''/Pages'' of
               None \<Rightarrow> (Inl TypeError, lg)
             | Some n \<Rightarrow> readnode n lg)
          else (Inr [], lg @ [Error ''Expected /Page or /Pages dictionary''])
      | _ \<Rightarrow> (Inl TypeError, lg))"
| "readkids [] lg = (Inr [], lg)"
| "readkids (k # ks) lg =
     (case readnode k lg of
        (Inl e, lg1) \<Rightarrow> (Inl e, lg1)
      | (Inr ps, lg1) \<Rightarrow>
          (case readkids ks lg1 of
             (Inl e, lg2) \<Rightarrow> (Inl e, lg2)
           | (Inr qs, lg2) \<Rightarrow> (Inr (ps @ qs), lg2)))"
  by pat_completeness auto
termination
  apply (relation "measure (\<lambda>x. case x of Inl (n, _) \<Rightarrow> size n | Inr (ks, _) \<Rightarrow> size_list size ks)")
  apply simp
  apply (auto dest!: map_of_size)
  done


declare readnode.simps [simp del]

definition readpages :: "pdfobj \<Rightarrow> msg list \<Rightarrow> exn + pdfobj list \<times> msg list" where
  "readpages node lg =
     (case readnode node lg of
        (Inr ps, lg1) \<Rightarrow> Inr (ps, lg1)
      | (Inl e, lg1) \<Rightarrow>
          if e = AttributeError \<or> e = TypeError
          then Inr ([], lg1 @ [Error ''Invalid page tree''])
          else Inl e)"

text \<open>
  What the specification calls a well-formed page tree: page leaves and \<^verbatim>\<open>Pages\<close>
  nodes with their kids in order, each with further attributes. \<open>node_of\<close> is the
  dictionary of a tree node, \<open>catalog_of\<close> a catalog over a tree, \<open>preorder_pages\<close>
  the specification's result: the leaves, depth first, left to right.
\<close>

datatype ptree = Page "(string \<times> pdfobj) list" | Pages "(string \<times> pdfobj) list" "ptree list"

fun node_of :: "ptree \<Rightarrow> pdfobj" where
  "node_of (Page attrs) = PdfDict ((''/Type'', PdfObject ''/Page'') # attrs)"
| "node_of (Pages attrs kids) =
     PdfDict ((''/Type'', PdfObject ''/Pages'') # (''/Kids'', PdfArray (map node_of kids)) # attrs)"

definition catalog_of :: "(string \<times> pdfobj) list \<Rightarrow> ptree \<Rightarrow> pdfobj" where
  "catalog_of attrs root =
     PdfDict ((''/Type'', PdfObject ''/Catalog'') # (''/Pages'', node_of root) # attrs)"

fun preorder_pages :: "ptree \<Rightarrow> pdfobj list" where
  "preorder_pages (Page attrs) = [node_of (Page attrs)]"
| "preorder_pages (Pages attrs kids) = concat (map preorder_pages kids)"

lemma readkids_nodes:
  "(\<And>k lg. k \<in> set ks \<Longrightarrow> readnode (node_of k) lg = (Inr (preorder_pages k), lg))
    \<Longrightarrow> readkids (map node_of ks) lg = (Inr (concat (map preorder_pages ks)), lg)"
  by (induction ks arbitrary: lg) simp_all

lemma readnode_node_of:
  "readnode (node_of t) lg = (Inr (preorder_pages t), lg)"
proof (induction t arbitrary: lg)
  case (Page attrs)
  show ?case by (simp add: readnode.simps)
next
  case (Pages attrs kids)
  have "readkids (map node_of kids) lg = (Inr (concat (map preorder_pages kids)), lg)"
    by (rule readkids_nodes) (rule Pages.IH)
  then show ?case by (simp add: readnode.simps)
qed

text \<open>
  C9. For every well-formed catalog the page list is the depth-first, pre-order
  flattening of the tree, each page once, in order, and nothing is logged; a catalog over
  \<open>Pages [A, Pages [B, C]]\<close> yields \<open>[A, B, C]\<close>.
\<close>

theorem readpages_preorder:
  "readpages (catalog_of attrs t) lg = Inr (preorder_pages t, lg)
   \<and> readpages (catalog_of attrs (Pages ps [Page a, Pages qs [Page b, Page c]])) lg
       = Inr ([node_of (Page a), node_of (Page b), node_of (Page c)], lg)"
proof -
  have "readpages (catalog_of attrs u) lg = Inr (preorder_pages u, lg)" for u
    by (simp add: readpages_def catalog_of_def readnode.simps [of "PdfDict _"] readnode_node_of)
  then show ?thesis by simp
qed

theorem readpages_preorder_witness:
  "readpages
     (PdfDict [(''/Type'', PdfObject ''/Catalog''),
        (''/Pages'', PdfDict [(''/Type'', PdfObject ''/Pages''),
           (''/Kids'', PdfArray
              [PdfDict [(''/Type'', PdfObject ''/Page''), (''/Rotate'', PdfObject ''90'')],
               PdfDict [(''/Type'', PdfObject ''/Pages''),
                 (''/Kids'', PdfArray
                    [PdfDict [(''/Type'', PdfObject ''/Page''), (''/Rotate'', PdfObject ''180'')],
                     PdfDict [(''/Type'', PdfObject ''/Page'')]])]])])]) []
   = Inr ([PdfDict [(''/Type'', PdfObject ''/Page''), (''/Rotate'', PdfObject ''90'')],
           PdfDict [(''/Type'', PdfObject ''/Page''), (''/Rotate'', PdfObject ''180'')],
           PdfDict [(''/Type'', PdfObject ''/Page'')]], [])"
  using readpages_preorder
    [of "[]" "Pages [] [Page [(''/Rotate'', PdfObject ''90'')],
                        Pages [] [Page [(''/Rotate'', PdfObject ''180'')], Page []]]" "[]"]
  by (simp add: catalog_of_def)



section \<open>The stream extractor (\<^verbatim>\<open>findstream\<close>, \<^verbatim>\<open>readstream\<close>, lines 102 to 173)\<close>

text \<open>
  \<^verbatim>\<open>readstream\<close> gets \<open>slen\<close>, the value of \<^verbatim>\<open>int(obj.Length)\<close>, from its caller.
  Messages are recorded by a fixed text, with CR and LF spelt out.
\<close>

definition rstrip :: "string \<Rightarrow> string" where
  "rstrip t = rev (dropWhile is_space (rev t))"

definition findstream :: "string \<Rightarrow> reader \<Rightarrow> exn + int \<times> reader" where
  "findstream tok s =
     (let startstream = tokstart s + int (length tok) in
      case py_index (fdata s) startstream of
        Inl e \<Rightarrow> Inl e
      | Inr c1 \<Rightarrow>
          (let gotcr = (c1 = CHR 0x0D);
               startstream = startstream + (if gotcr then 1 else 0) in
           case py_index (fdata s) startstream of
             Inl e \<Rightarrow> Inl e
           | Inr c2 \<Rightarrow>
               (let gotlf = (c2 = CHR 0x0A);
                    startstream = startstream + (if gotlf then 1 else 0) in
                Inr (startstream,
                     if \<not> gotlf then
                       (if \<not> gotcr then error ''stream keyword not followed by LF'' s
                        else warning ''stream keyword terminated by CR without LF'' s)
                     else s))))"

definition readstream :: "tokenizer \<Rightarrow> int \<Rightarrow> int \<Rightarrow> pobj \<Rightarrow> reader \<Rightarrow> pobj \<times> reader" where
  "readstream tk slen startstream obj s =
     (let target_endstream = startstream + slen;
          (endit, s) = multiple tk 2 (s\<lparr>floc := target_endstream\<rparr>);
          obj = obj\<lparr>raw_stream := Some (py_slice (fdata s) startstream target_endstream)\<rparr>
      in if endit = [''endstream'', ''endobj''] then (obj, s)
         else
           (let maxstream = int (length (fdata s)) - 20;
                endstream = py_find (fdata s) ''endstream'' startstream maxstream;
                s = s\<lparr>floc := startstream\<rparr>;
                room = endstream - startstream
            in if endstream < 0 then (obj, error ''Could not find endstream'' s)
               else if slen = room + 1
                       \<and> py_slice (fdata s) (startstream - 2) startstream = [CHR 0x0D, CHR 0x0A]
               then (obj\<lparr>raw_stream :=
                            Some (py_slice (fdata s) (startstream - 1) (target_endstream - 1))\<rparr>,
                     warning ''stream keyword terminated by CR without LF'' s)
               else
                 (let s = s\<lparr>floc := endstream\<rparr> in
                  if slen > room then
                    (obj\<lparr>stream_prop := Some (py_slice (fdata s) startstream endstream)\<rparr>,
                     error ''stream /Length attribute appears to be too big -- adjusting'' s)
                  else if rstrip (py_slice (fdata s) target_endstream endstream) \<noteq> [] then
                    (obj\<lparr>stream_prop := Some (py_slice (fdata s) startstream endstream)\<rparr>,
                     error ''stream /Length attribute appears to be too small -- adjusting'' s)
                  else
                    (let endobj = py_find (fdata s) ''endobj'' endstream maxstream in
                     if endobj < 0 then (obj, error ''Could not find endobj after endstream'' s)
                     else if rstrip (py_slice (fdata s) endstream endobj) \<noteq> ''endstream''
                     then (obj, error ''Unexpected data between endstream and endobj'' s)
                     else (obj, error ''Illegal endstream/endobj combination'' s)))))"

text \<open>
  A new object as the parser returns it, before any attribute is written.
\<close>

definition new_pobj :: "pdfobj \<Rightarrow> pobj" where
  "new_pobj v = \<lparr>val = v, indirect = None, raw_stream = None, stream_prop = None\<rparr>"

lemma multiple_fdata: "fdata (snd (multiple tk n s)) = fdata s"
  by (induction n arbitrary: s) (simp_all add: next_tok_def split_beta split: option.splits)

lemma multiple_msgs: "msgs (snd (multiple tk n s)) = msgs s"
  by (induction n arbitrary: s) (simp_all add: next_tok_def split_beta split: option.splits)

text \<open>
  C5. The fast path has failed, the declared \<^verbatim>\<open>Length\<close> is one more than the distance
  from the detected start of the stream to \<^verbatim>\<open>endstream\<close>, and the two bytes before the
  detected start are CR LF: the keyword was ended by a lone CR, and the LF that
  \<^verbatim>\<open>findstream\<close> skipped is the first byte of the body. Then the window is shifted by
  one byte: the body is every byte from just after that CR up to the true
  \<^verbatim>\<open>endstream\<close>, one warning is logged, no error, and nothing is raised
  (\<open>readstream\<close> has no exception in its result type).
\<close>

theorem readstream_lone_cr_shift:
  assumes "fst (multiple tk 2 (s\<lparr>floc := startstream + slen\<rparr>)) \<noteq> [''endstream'', ''endobj'']"
    and "py_find (fdata s) ''endstream'' startstream (int (length (fdata s)) - 20) = endstream"
    and "0 \<le> endstream"
    and "slen = endstream - startstream + 1"
    and "py_slice (fdata s) (startstream - 2) startstream = [CHR 0x0D, CHR 0x0A]"
  shows "raw_stream (fst (readstream tk slen startstream obj s))
           = Some (py_slice (fdata s) (startstream - 1) endstream)
       \<and> stream_prop (fst (readstream tk slen startstream obj s)) = stream_prop obj
       \<and> msgs (snd (readstream tk slen startstream obj s))
           = msgs s @ [Warning ''stream keyword terminated by CR without LF'']"
  using assms multiple_fdata [of tk 2 "s\<lparr>floc := startstream + slen\<rparr>"]
    multiple_msgs [of tk 2 "s\<lparr>floc := startstream + slen\<rparr>"]
  by (cases "multiple tk 2 (s\<lparr>floc := startstream + slen\<rparr>)")
     (simp add: readstream_def Let_def warning_def)


definition example_stream_file :: string where
  "example_stream_file =
     ''5 0 obj'' @ [CHR 0x0A] @ ''<< /Length 6 >>'' @ [CHR 0x0A] @
     ''stream'' @ [CHR 0x0D, CHR 0x0A] @ ''Helloendstream'' @ [CHR 0x0A] @
     ''endobj'' @ [CHR 0x0A] @ ''xref'' @ [CHR 0x0A] @ ''0 1'' @ [CHR 0x0A] @
     ''trailer'' @ [CHR 0x0A] @ ''<< >>'' @ [CHR 0x0A] @ ''startxref'' @ [CHR 0x0A] @
     ''0'' @ [CHR 0x0A] @ ''%%EOF'' @ [CHR 0x0A]"


definition example_stream_reader :: reader where
  \<comment> \<open>The reader just after the token \<^verbatim>\<open>stream\<close> (bytes 24 to 29) was read.\<close>
  "example_stream_reader = (empty_reader example_stream_file)\<lparr>tokstart := 24, floc := 30\<rparr>"

theorem readstream_lone_cr_shift_witness:
  "findstream ''stream'' example_stream_reader = Inr (32, example_stream_reader)
   \<and> raw_stream (fst (readstream ws_tk 6 32 (new_pobj (PdfDict [(''/Length'', PdfObject ''6'')]))
                        example_stream_reader))
       = Some (CHR 0x0A # ''Hello'')
   \<and> msgs (snd (readstream ws_tk 6 32 (new_pobj (PdfDict [(''/Length'', PdfObject ''6'')]))
                   example_stream_reader))
       = [Warning ''stream keyword terminated by CR without LF'']"
proof -
  have fs: "findstream ''stream'' example_stream_reader = Inr (32, example_stream_reader)"
    by (simp add: findstream_def example_stream_reader_def empty_reader_def
        example_stream_file_def py_index_def Let_def)
  have h1: "fst (multiple ws_tk 2 (example_stream_reader\<lparr>floc := 32 + 6\<rparr>))
              \<noteq> [''endstream'', ''endobj'']"
    by (simp add: example_stream_reader_def empty_reader_def example_stream_file_def
        numeral_2_eq_2 next_tok_def ws_tk_def is_space_def Let_def)
  have h2: "py_find (fdata example_stream_reader) ''endstream'' 32
              (int (length (fdata example_stream_reader)) - 20) = 37"
    by (simp add: example_stream_reader_def empty_reader_def example_stream_file_def
        py_find_def py_slice_def norm_index_def)
  have h3: "py_slice (fdata example_stream_reader) (32 - 2) 32 = [CHR 0x0D, CHR 0x0A]"
    by (simp add: example_stream_reader_def empty_reader_def example_stream_file_def
        py_slice_def norm_index_def)
  have sl: "py_slice (fdata example_stream_reader) (32 - 1) 37 = CHR 0x0A # ''Hello''"
    by (simp add: example_stream_reader_def empty_reader_def example_stream_file_def
        py_slice_def norm_index_def)
  have m: "msgs example_stream_reader = []"
    by (simp add: example_stream_reader_def empty_reader_def)
  from readstream_lone_cr_shift [OF h1 h2 _ _ h3,
      of "new_pobj (PdfDict [(''/Length'', PdfObject ''6'')])"] fs sl m
  show ?thesis by simp
qed

lemma first_occ_take_None:
  "sub \<noteq> [] \<Longrightarrow> first_occ sub xs = None \<Longrightarrow> first_occ sub (take n xs) = None"
proof (induction xs arbitrary: n)
  case Nil
  then show ?case by simp
next
  case (Cons x xs)
  show ?case
  proof (cases n)
    case 0
    with Cons.prems show ?thesis by simp
  next
    case (Suc m)
    from Cons.prems have ne: "take (length sub) (x # xs) \<noteq> sub"
      and rest: "first_occ sub xs = None"
      by (auto split: if_splits)
    have "take (length sub) (x # take m xs) \<noteq> sub"
    proof
      assume eq: "take (length sub) (x # take m xs) = sub"
      then have "length (take (length sub) (take (Suc m) (x # xs))) = length sub" by simp
      then have "length sub \<le> Suc m" by (simp add: min_def split: if_splits)
      then have "take (length sub) (take (Suc m) (x # xs)) = take (length sub) (x # xs)"
        by (simp add: take_take min_def del: take_Suc_Cons)
      with eq ne show False by simp
    qed
    with Cons.IH [OF Cons.prems(1) rest, of m] Suc show ?thesis by simp
  qed
qed

lemma py_find_not_found:
  "sub \<noteq> [] \<Longrightarrow> py_find_from d sub a < 0 \<Longrightarrow> py_find d sub a b = - 1"
  by (auto simp: py_find_from_def py_find_def py_slice_def Let_def first_occ_take_None
      split: option.splits)

text \<open>
  C6 (as amended). When the fast path has failed and \<^verbatim>\<open>endstream\<close> is nowhere after
  the start of the stream, one error is logged, nothing is raised, and the body keeps the
  window that line 132 assigned before the search: the \<^verbatim>\<open>Length\<close> bytes after the
  start (cut at the end of the file). It is empty only when that window is.
\<close>

theorem readstream_no_endstream:
  assumes "fst (multiple tk 2 (s\<lparr>floc := startstream + slen\<rparr>)) \<noteq> [''endstream'', ''endobj'']"
    and "py_find_from (fdata s) ''endstream'' startstream < 0"
  shows "raw_stream (fst (readstream tk slen startstream obj s))
           = Some (py_slice (fdata s) startstream (startstream + slen))
       \<and> stream_prop (fst (readstream tk slen startstream obj s)) = stream_prop obj
       \<and> msgs (snd (readstream tk slen startstream obj s))
           = msgs s @ [Error ''Could not find endstream'']"
proof -
  have "py_find (fdata s) ''endstream'' startstream (int (length (fdata s)) - 20) = - 1"
    using assms(2) by (intro py_find_not_found) simp_all
  with assms(1) multiple_fdata [of tk 2 "s\<lparr>floc := startstream + slen\<rparr>"]
    multiple_msgs [of tk 2 "s\<lparr>floc := startstream + slen\<rparr>"]
  show ?thesis
    by (cases "multiple tk 2 (s\<lparr>floc := startstream + slen\<rparr>)")
       (simp add: readstream_def Let_def error_def)
qed

definition example_truncated_file :: string where
  "example_truncated_file =
     ''5 0 obj'' @ [CHR 0x0A] @ ''<< /Length 3 >>'' @ [CHR 0x0A] @
     ''stream'' @ [CHR 0x0A] @ ''abcdefgh'' @ [CHR 0x0A] @ ''%%EOF'' @ [CHR 0x0A]"

definition example_truncated_reader :: reader where
  "example_truncated_reader = (empty_reader example_truncated_file)\<lparr>tokstart := 24, floc := 30\<rparr>"

theorem readstream_no_endstream_witness:
  "py_find_from (fdata example_truncated_reader) ''endstream'' 31 = - 1
   \<and> msgs (snd (readstream ws_tk 3 31 (new_pobj (PdfDict [(''/Length'', PdfObject ''3'')]))
                   example_truncated_reader))
       = [Error ''Could not find endstream'']"
proof -
  have h1: "fst (multiple ws_tk 2 (example_truncated_reader\<lparr>floc := 31 + 3\<rparr>))
              \<noteq> [''endstream'', ''endobj'']"
    by (simp add: example_truncated_reader_def empty_reader_def example_truncated_file_def
        numeral_2_eq_2 next_tok_def ws_tk_def is_space_def Let_def)
  have h2: "py_find_from (fdata example_truncated_reader) ''endstream'' 31 = - 1"
    by (simp add: example_truncated_reader_def empty_reader_def example_truncated_file_def
        py_find_from_def norm_index_def)
  have m: "msgs example_truncated_reader = []"
    by (simp add: example_truncated_reader_def empty_reader_def)
  from readstream_no_endstream [OF h1, of "new_pobj (PdfDict [(''/Length'', PdfObject ''3'')])"]
    h2 m
  show ?thesis by simp
qed

text \<open>
  The claim as first stated (the body is left empty) fails on a truncated file: the
  stream of declared length 3 has no \<^verbatim>\<open>endstream\<close>, the error is logged, and the body
  is \<^verbatim>\<open>abc\<close>.
\<close>

theorem readstream_body_not_empty_counterexample:
  "findstream ''stream'' example_truncated_reader = Inr (31, example_truncated_reader)
   \<and> py_find_from (fdata example_truncated_reader) ''endstream'' 31 = - 1
   \<and> raw_stream (fst (readstream ws_tk 3 31 (new_pobj (PdfDict [(''/Length'', PdfObject ''3'')]))
                        example_truncated_reader))
       = Some ''abc''
   \<and> msgs (snd (readstream ws_tk 3 31 (new_pobj (PdfDict [(''/Length'', PdfObject ''3'')]))
                   example_truncated_reader))
       = [Error ''Could not find endstream'']"
  by (simp add: example_truncated_reader_def empty_reader_def example_truncated_file_def
      findstream_def py_index_def py_find_from_def py_find_def py_slice_def norm_index_def
      readstream_def numeral_2_eq_2 next_tok_def ws_tk_def is_space_def Let_def error_def
      new_pobj_def)



section \<open>The indirect object table and the value parser\<close>

text \<open>
  \<^verbatim>\<open>findindirect\<close> (lines 26 to 36). The placeholder is a new heap cell; the table maps
  the key to its address, so the \<open>Ref\<close> that every caller gets for a key is the same.
  (The placeholder's \<^verbatim>\<open>_loader\<close> is always \<^verbatim>\<open>loadindirect\<close> and is not stored.)
\<close>

definition findindirect :: "pdfobj \<Rightarrow> pdfobj \<Rightarrow> reader \<Rightarrow> exn + nat \<times> reader" where
  "findindirect objnum gennum s =
     (case int_of_obj (heap s) objnum of
        Inl e \<Rightarrow> Inl e
      | Inr n \<Rightarrow>
     (case int_of_obj (heap s) gennum of
        Inl e \<Rightarrow> Inl e
      | Inr g \<Rightarrow>
     (case indirect_objects s (n, g) of
        Some a \<Rightarrow> Inr (a, s)
      | None \<Rightarrow>
          Inr (length (heap s),
               s\<lparr>indirect_objects := (indirect_objects s)((n, g) \<mapsto> length (heap s)),
                 deferred_objects := insert (n, g) (deferred_objects s),
                 heap := heap s @ [PdfIndirect (n, g)]\<rparr>))))"

text \<open>
  The dispatch table \<^verbatim>\<open>self.special\<close> (lines 542 to 547).
\<close>

datatype special = Sp_readdict | Sp_readarray | Sp_empty_obj | Sp_badtoken

definition special_get :: "string \<Rightarrow> special option" where
  "special_get t =
     (if t = ''<<'' then Some Sp_readdict
      else if t = ''['' then Some Sp_readarray
      else if t = ''endobj'' then Some Sp_empty_obj
      else if t \<in> set [[CHR 0x5C], ''('', '')'', ''<'', ''>'', ''{'', ''}'', '']'', ''>>'', ''%'']
      then Some Sp_badtoken
      else None)"

text \<open>
  \<^verbatim>\<open>list.pop()\<close>; \<^verbatim>\<open>result[key] = value\<close> on a \<^verbatim>\<open>PdfDict\<close>, where assigning
  \<^verbatim>\<open>None\<close> removes the key (the class is in \<^verbatim>\<open>objects.py\<close>); \<^verbatim>\<open>tok.startswith('/')\<close>.
\<close>

definition pop :: "'a list \<Rightarrow> exn + 'a \<times> 'a list" where
  "pop xs = (if xs = [] then Inl IndexError else Inr (last xs, butlast xs))"

definition dict_set :: "(string \<times> pdfobj) list \<Rightarrow> string \<Rightarrow> pdfobj \<Rightarrow> (string \<times> pdfobj) list" where
  "dict_set d k v = (if v = PyNone then AList.delete k d else AList.update k v d)"

definition startswith_slash :: "string \<Rightarrow> bool" where
  "startswith_slash t = (case t of [] \<Rightarrow> False | c # r \<Rightarrow> c = CHR ''/'')"

text \<open>
  \<^verbatim>\<open>readarray\<close> (lines 38 to 57) and \<^verbatim>\<open>readdict\<close> (lines 59 to 89) as loops over the
  token source, each with its accumulator; \<open>call_special\<close> is \<^verbatim>\<open>func(source)\<close> for an
  entry of the dispatch table (\<^verbatim>\<open>readdict\<close>, \<^verbatim>\<open>readarray\<close>, \<^verbatim>\<open>empty_obj\<close>,
  \<^verbatim>\<open>badtoken\<close>). \<^verbatim>\<open>value in ']R'\<close> is a substring test: it holds for the empty string,
  \<^verbatim>\<open>]\<close>, \<^verbatim>\<open>R\<close> and \<^verbatim>\<open>]R\<close>. The \<^verbatim>\<open>for\<close> loop of \<^verbatim>\<open>readarray\<close> ends when the source
  is exhausted; \<^verbatim>\<open>next()\<close> in \<^verbatim>\<open>readdict\<close> raises there. \<^verbatim>\<open>empty_obj\<close> rewinds the
  cursor, so a loop need not consume input: each call spends fuel, and \<open>None\<close> is "out
  of fuel".
\<close>

fun readarray :: "tokenizer \<Rightarrow> nat \<Rightarrow> pdfobj list \<Rightarrow> reader \<Rightarrow> (exn + pdfobj \<times> reader) option"
  and readdict_loop ::
    "tokenizer \<Rightarrow> nat \<Rightarrow> string \<Rightarrow> (string \<times> pdfobj) list \<Rightarrow> reader \<Rightarrow> (exn + pdfobj \<times> reader) option"
  and call_special :: "tokenizer \<Rightarrow> nat \<Rightarrow> special \<Rightarrow> reader \<Rightarrow> (exn + pdfobj \<times> reader) option"
where
  "readarray tk 0 result s = None"
| "readarray tk (Suc fuel) result s =
     (case next_tok tk s of
        Inl e \<Rightarrow> Some (Inr (PdfArray result, s))
      | Inr (value, s) \<Rightarrow>
          if value \<in> set ['''', '']'', ''R'', '']R''] then
            if value = '']'' then Some (Inr (PdfArray result, s))
            else
              (case pop result of
                 Inl e \<Rightarrow> Some (Inl e)
               | Inr (generation, result) \<Rightarrow>
              (case pop result of
                 Inl e \<Rightarrow> Some (Inl e)
               | Inr (objnum, result) \<Rightarrow>
              (case findindirect objnum generation s of
                 Inl e \<Rightarrow> Some (Inl e)
               | Inr (a, s) \<Rightarrow> readarray tk fuel (result @ [Ref a]) s)))
          else
            (case special_get value of
               None \<Rightarrow> readarray tk fuel (result @ [PdfObject value]) s
             | Some func \<Rightarrow>
                 (case call_special tk fuel func s of
                    None \<Rightarrow> None
                  | Some (Inl e) \<Rightarrow> Some (Inl e)
                  | Some (Inr (v, s)) \<Rightarrow> readarray tk fuel (result @ [v]) s)))"
| "readdict_loop tk 0 tok result s = None"
| "readdict_loop tk (Suc fuel) tok result s =
     (if tok = ''>>'' then Some (Inr (PdfDict result, s))
      else if \<not> startswith_slash tok then
        (case next_tok tk (error ''Expected PDF /name object'' s) of
           Inl e \<Rightarrow> Some (Inl e)
         | Inr (tok, s) \<Rightarrow> readdict_loop tk fuel tok result s)
      else
        (case next_tok tk s of
           Inl e \<Rightarrow> Some (Inl e)
         | Inr (value, s) \<Rightarrow>
        (case special_get value of
           Some func \<Rightarrow>
             (case call_special tk fuel func s of
                None \<Rightarrow> None
              | Some (Inl e) \<Rightarrow> Some (Inl e)
              | Some (Inr (v, s)) \<Rightarrow>
                  (case next_tok tk s of
                     Inl e \<Rightarrow> Some (Inl e)
                   | Inr (tok', s) \<Rightarrow> readdict_loop tk fuel tok' (dict_set result tok v) s))
         | None \<Rightarrow>
             (case next_tok tk s of
                Inl e \<Rightarrow> Some (Inl e)
              | Inr (tok1, s) \<Rightarrow>
                  if isdigit value \<and> isdigit tok1 then
                    (case next_tok tk s of
                       Inl e \<Rightarrow> Some (Inl e)
                     | Inr (tok2, s) \<Rightarrow>
                         if tok2 \<noteq> ''R'' then
                           readdict_loop tk fuel tok2 result
                             (error ''Expected R following two integers'' s)
                         else
                           (case findindirect (PdfObject value) (PdfObject tok1) s of
                              Inl e \<Rightarrow> Some (Inl e)
                            | Inr (a, s) \<Rightarrow>
                                (case next_tok tk s of
                                   Inl e \<Rightarrow> Some (Inl e)
                                 | Inr (tok3, s) \<Rightarrow>
                                     readdict_loop tk fuel tok3 (dict_set result tok (Ref a)) s)))
                  else readdict_loop tk fuel tok1 (dict_set result tok (PdfObject value)) s))))"
| "call_special tk fuel Sp_readdict s =
     (case next_tok tk s of
        Inl e \<Rightarrow> Some (Inl e)
      | Inr (tok, s) \<Rightarrow> readdict_loop tk fuel tok [] s)"
| "call_special tk fuel Sp_readarray s = readarray tk fuel [] s"
| "call_special tk fuel Sp_empty_obj s = Some (Inr (PyNone, s\<lparr>floc := tokstart s\<rparr>))"
| "call_special tk fuel Sp_badtoken s = Some (Inl (PdfParseError ''Unexpected delimiter''))"



section \<open>Loading an object (\<^verbatim>\<open>loadindirect\<close>, lines 175 to 251)\<close>

text \<open>
  \<^verbatim>\<open>'%d %d obj' % (objnum, gennum)\<close> needs decimal numerals.
\<close>

fun str_of_nat :: "nat \<Rightarrow> string" where
  "str_of_nat n =
     (if n < 10 then [char_of (48 + n)]
      else str_of_nat (n div 10) @ [char_of (48 + n mod 10)])"

declare str_of_nat.simps [simp del]

definition str_of_int :: "int \<Rightarrow> string" where
  "str_of_int i = (if i < 0 then CHR ''-'' # str_of_nat (nat (- i)) else str_of_nat (nat i))"

definition heap_cell :: "reader \<Rightarrow> nat \<Rightarrow> hobj option" where
  "heap_cell s a = (if a < length (heap s) then Some (heap s ! a) else None)"

definition is_placeholder :: "reader \<Rightarrow> nat \<Rightarrow> bool" where
  "is_placeholder s a = (case heap_cell s a of Some (PdfIndirect k) \<Rightarrow> True | _ \<Rightarrow> False)"

text \<open>
  Lines 186 to 208: read and validate the header, or search the file for it. The flag
  is \<open>False\<close> where the method warns and returns \<^verbatim>\<open>None\<close>.
\<close>

definition read_header :: "tokenizer \<Rightarrow> key \<Rightarrow> int \<Rightarrow> reader \<Rightarrow> exn + bool \<times> reader" where
  "read_header tk key offset s =
     (let objnum = fst key; gennum = snd key;
          (objid, s) = multiple tk 3 (s\<lparr>floc := offset\<rparr>);
          ok = (length objid = 3
                \<and> isdigit (objid ! 0) \<and> py_int (objid ! 0) = Inr objnum
                \<and> isdigit (objid ! 1) \<and> py_int (objid ! 1) = Inr gennum
                \<and> objid ! 2 = ''obj'')
      in if ok then Inr (True, s)
         else
           (case next_tok tk (s\<lparr>floc := offset\<rparr>) of
              Inl e \<Rightarrow> Inl e
            | Inr (t, s) \<Rightarrow>
                (let objheader = str_of_int objnum @ '' '' @ str_of_int gennum @ '' obj'';
                     found_lf = py_find_all (fdata s) (CHR 0x0A # objheader) + 1;
                     offset2 = (if found_lf \<noteq> 0 then found_lf
                                else py_find_all (fdata s) (CHR 0x0D # objheader) + 1)
                 in if offset2 = 0 then Inr (False, warning ''Expected indirect object'' s)
                    else
                      (case py_index (fdata s) (offset2 - 1) of
                         Inl e \<Rightarrow> Inl e
                       | Inr c \<Rightarrow>
                           if py_find_from (fdata s) (c # objheader) offset2 > 0
                           then Inr (False, warning ''Expected indirect object'' s)
                           else Inr (True,
                                  (warning ''Indirect object found at incorrect offset'' s)
                                    \<lparr>floc := offset2 + int (length objheader)\<rparr>)))))"

text \<open>
  \<^verbatim>\<open>int(obj.Length)\<close> (line 129). Reading an attribute of a \<^verbatim>\<open>PdfDict\<close> resolves a
  placeholder through its loader (the class is in \<^verbatim>\<open>objects.py\<close>; the docstring of
  \<^verbatim>\<open>findstream\<close> says that \<^verbatim>\<open>Length\<close> may be an indirect object), which is a nested
  call of \<^verbatim>\<open>loadindirect\<close>, here the parameter \<open>load\<close>.
\<close>

definition obj_length ::
  "(key \<Rightarrow> reader \<Rightarrow> (exn + nat option \<times> reader) option) \<Rightarrow> pdfobj \<Rightarrow> reader
    \<Rightarrow> (exn + int \<times> reader) option" where
  "obj_length load v s =
     (case v of
        PdfDict d \<Rightarrow>
          (case map_of d ''/Length'' of
             Some (Ref b) \<Rightarrow>
               (case heap_cell s b of
                  Some (PdfIndirect k) \<Rightarrow>
                    (case load k s of
                       None \<Rightarrow> None
                     | Some (Inl e) \<Rightarrow> Some (Inl e)
                     | Some (Inr (None, s)) \<Rightarrow> Some (Inl TypeError)
                     | Some (Inr (Some c, s)) \<Rightarrow>
                         Some (map_sum id (\<lambda>i. (i, s)) (int_of_obj (heap s) (Ref c))))
                | _ \<Rightarrow> Some (map_sum id (\<lambda>i. (i, s)) (int_of_obj (heap s) (Ref b))))
           | Some x \<Rightarrow> Some (map_sum id (\<lambda>i. (i, s)) (int_of_obj (heap s) x))
           | None \<Rightarrow> Some (Inl TypeError))
      | _ \<Rightarrow> Some (Inl AttributeError))"

definition endswith_endobj :: "string \<Rightarrow> bool" where
  "endswith_endobj t = (6 \<le> length t \<and> drop (length t - 6) t = ''endobj'')"

definition store_object :: "key \<Rightarrow> pobj \<Rightarrow> reader \<Rightarrow> nat \<times> reader" where
  "store_object key p s =
     (length (heap s),
      s\<lparr>indirect_objects := (indirect_objects s)(key \<mapsto> length (heap s)),
        heap := heap s @ [Obj p]\<rparr>)"

text \<open>
  Lines 212 to 215 (\<open>parse_object\<close>), 241 to 247 (\<open>recover_value\<close>), 230
  (\<open>load_stream\<close>) and 217 to 251 (\<open>finish_object\<close>). All tokens are taken to be
  \<^verbatim>\<open>PdfObject\<close> strings. Line 218 raises KeyError when the key is not deferred, line
  222 raises AttributeError when \<^verbatim>\<open>empty_obj\<close> returned \<^verbatim>\<open>None\<close>. An exception ends
  the modelled run: what a caller that catches it would find in the table is not modelled.
\<close>

definition parse_object :: "tokenizer \<Rightarrow> nat \<Rightarrow> reader \<Rightarrow> (exn + pdfobj \<times> reader) option" where
  "parse_object tk fuel s =
     (case next_tok tk s of
        Inl e \<Rightarrow> Some (Inl e)
      | Inr (t, s) \<Rightarrow>
          (case special_get t of
             None \<Rightarrow> Some (Inr (PdfObject t, s))
           | Some func \<Rightarrow> call_special tk fuel func s))"

definition recover_value :: "pdfobj \<Rightarrow> reader \<Rightarrow> pdfobj \<times> reader" where
  "recover_value v s =
     (case v of
        PdfObject t \<Rightarrow>
          if endswith_endobj t
          then (PdfObject (py_slice t 0 (- 6)), error ''No space or delimiter before endobj'' s)
          else (PdfObject [], error ''Expected endobj token'' s)
      | PdfDict d \<Rightarrow> (PdfObject [], error ''Expected endobj or stream token'' s)
      | _ \<Rightarrow> (PdfObject [], error ''Expected endobj token'' s))"

definition load_stream ::
  "tokenizer \<Rightarrow> (key \<Rightarrow> reader \<Rightarrow> (exn + nat option \<times> reader) option) \<Rightarrow> pdfobj \<Rightarrow> nat \<Rightarrow> pobj
    \<Rightarrow> string \<Rightarrow> reader \<Rightarrow> (exn + nat option \<times> reader) option" where
  "load_stream tk load v a obj tok s =
     (case findstream tok s of
        Inl e \<Rightarrow> Some (Inl e)
      | Inr (startstream, s) \<Rightarrow>
     (case obj_length load v s of
        None \<Rightarrow> None
      | Some (Inl e) \<Rightarrow> Some (Inl e)
      | Some (Inr (slen, s)) \<Rightarrow>
          (case readstream tk slen startstream obj s of
             (obj, s) \<Rightarrow> Some (Inr (Some a, s\<lparr>heap := (heap s)[a := Obj obj]\<rparr>)))))"

definition finish_object ::
  "tokenizer \<Rightarrow> (key \<Rightarrow> reader \<Rightarrow> (exn + nat option \<times> reader) option) \<Rightarrow> key \<Rightarrow> pdfobj
    \<Rightarrow> reader \<Rightarrow> (exn + nat option \<times> reader) option" where
  "finish_object tk load key v s =
     (if key \<notin> deferred_objects s then Some (Inl KeyError)
      else if v = PyNone then Some (Inl AttributeError)
      else
        (let obj = (new_pobj v)\<lparr>indirect := Some key\<rparr>;
             (a, s) = store_object key obj (s\<lparr>deferred_objects := deferred_objects s - {key}\<rparr>)
         in case next_tok tk s of
              Inl e \<Rightarrow> Some (Inl e)
            | Inr (tok, s) \<Rightarrow>
                if tok = ''endobj'' then Some (Inr (Some a, s))
                else if (case v of PdfDict d \<Rightarrow> True | _ \<Rightarrow> False) \<and> tok = ''stream''
                then load_stream tk load v a obj tok s
                else
                  (case recover_value v s of
                     (v2, s) \<Rightarrow>
                       (case store_object key ((new_pobj v2)\<lparr>indirect := Some key\<rparr>) s of
                          (a2, s) \<Rightarrow> Some (Inr (Some a2, s))))))"

text \<open>
  The result is the address of the object returned, or \<open>None\<close> for Python's
  \<^verbatim>\<open>None\<close>. Nested loads spend fuel.
\<close>

primrec loadindirect ::
  "tokenizer \<Rightarrow> nat \<Rightarrow> key \<Rightarrow> reader \<Rightarrow> (exn + nat option \<times> reader) option" where
  "loadindirect tk 0 key s = None"
| "loadindirect tk (Suc fuel) key s =
     (case indirect_objects s key of
        None \<Rightarrow> Some (Inr (None, s))
      | Some a \<Rightarrow>
          if \<not> is_placeholder s a then Some (Inr (Some a, s))
          else
            (let offset = (case obj_offsets s key of None \<Rightarrow> 0 | Some off \<Rightarrow> off) in
             if offset = 0 then Some (Inr (None, warning ''Did not find PDF object'' s))
             else
               (case read_header tk key offset s of
                  Inl e \<Rightarrow> Some (Inl e)
                | Inr (found, s) \<Rightarrow>
                    if \<not> found then Some (Inr (None, s))
                    else
                      (case parse_object tk fuel s of
                         None \<Rightarrow> None
                       | Some (Inl e) \<Rightarrow> Some (Inl e)
                       | Some (Inr (v, s)) \<Rightarrow>
                           finish_object tk (loadindirect tk fuel) key v s))))"



text \<open>
  \<^verbatim>\<open>read_all\<close> (lines 253 to 262). Python iterates the set \<^verbatim>\<open>new\<close> in an order of its
  own: the order is the parameter \<open>iter\<close>. \<^verbatim>\<open>prev\<close> is updated with the deferred set as
  it is before the loads of the pass; \<open>None\<close> is "out of fuel".
\<close>

fun load_keys :: "tokenizer \<Rightarrow> nat \<Rightarrow> key list \<Rightarrow> reader \<Rightarrow> (exn + reader) option" where
  "load_keys tk fuel [] s = Some (Inr s)"
| "load_keys tk fuel (key # keys) s =
     (case loadindirect tk fuel key s of
        None \<Rightarrow> None
      | Some (Inl e) \<Rightarrow> Some (Inl e)
      | Some (Inr (r, s')) \<Rightarrow> load_keys tk fuel keys s')"

fun read_all ::
  "(key set \<Rightarrow> key list) \<Rightarrow> tokenizer \<Rightarrow> nat \<Rightarrow> key set \<Rightarrow> reader \<Rightarrow> (exn + reader) option" where
  "read_all iter tk 0 prev s = None"
| "read_all iter tk (Suc fuel) prev s =
     (let new = deferred_objects s - prev in
      if new = {} then Some (Inr s)
      else
        (case load_keys tk fuel (iter new) s of
           None \<Rightarrow> None
         | Some (Inl e) \<Rightarrow> Some (Inl e)
         | Some (Inr s') \<Rightarrow> read_all iter tk fuel (prev \<union> deferred_objects s) s'))"


section \<open>Indirect references in arrays\<close>

text \<open>
  A digit-like token always converts: \<^verbatim>\<open>int\<close> accepts it and yields its decimal value.
\<close>

lemma digit_not_space:
  "c \<in> set ''0123456789'' \<Longrightarrow> \<not> is_space c \<and> c \<noteq> CHR ''-'' \<and> c \<noteq> CHR ''+''"
  by (auto simp: is_space_def)

lemma strip_digits: "isdigit t \<Longrightarrow> strip t = t"
proof -
  assume d: "isdigit t"
  then have ne: "t \<noteq> []" and all: "\<forall>c\<in>set t. c \<in> set ''0123456789''"
    by (auto simp: isdigit_def list_all_iff)
  from ne have "hd t \<in> set t" and "last t \<in> set t" by simp_all
  with all have h: "\<not> is_space (hd t)" and l: "\<not> is_space (last t)"
    using digit_not_space by blast+
  from h ne have 1: "dropWhile is_space t = t" by (cases t) auto
  from l ne have "\<not> is_space (hd (rev t))" by (simp add: hd_rev)
  with ne have "dropWhile is_space (rev t) = rev t" by (cases "rev t") auto
  with 1 show ?thesis by (simp add: strip_def)
qed

lemma isdigit_py_int:
  "isdigit t \<Longrightarrow> py_int t = Inr (foldl (\<lambda>a c. 10 * a + digit_val c) 0 t)"
proof -
  assume d: "isdigit t"
  then have ne: "t \<noteq> []" and all: "\<forall>c\<in>set t. c \<in> set ''0123456789''"
    by (auto simp: isdigit_def list_all_iff)
  from ne have "hd t \<in> set t" by simp
  with all have "hd t \<noteq> CHR ''-'' \<and> hd t \<noteq> CHR ''+''" using digit_not_space by blast
  with ne d strip_digits [OF d] show ?thesis
    by (cases t) (auto simp: py_int_def Let_def)
qed

text \<open>
  What \<^verbatim>\<open>readarray\<close> does at the token \<^verbatim>\<open>R\<close>: when the two values accumulated last
  convert to integers \<open>n\<close> and \<open>g\<close> with \<^verbatim>\<open>int\<close>, as digit-like values always do
  (lemma \<open>isdigit_py_int\<close>), both are removed and one reference takes their place: the
  table's entry for the identity \<open>(n, g)\<close>, object number first, generation second.
\<close>

lemma readarray_R_collapses:
  assumes "next_tok tk s = Inr (''R'', s1)"
    and "int_of_obj (heap s1) objnum = Inr n"
    and "int_of_obj (heap s1) generation = Inr g"
  shows "\<exists>a s2. findindirect objnum generation s1 = Inr (a, s2)
           \<and> indirect_objects s2 (n, g) = Some a
           \<and> readarray tk (Suc fuel) (result @ [objnum, generation]) s
               = readarray tk fuel (result @ [Ref a]) s2"
proof -
  have "\<exists>a s2. findindirect objnum generation s1 = Inr (a, s2)
           \<and> indirect_objects s2 (n, g) = Some a"
    using assms(2,3) by (cases "indirect_objects s1 (n, g)") (auto simp: findindirect_def)
  then obtain a s2 where f: "findindirect objnum generation s1 = Inr (a, s2)"
    and t: "indirect_objects s2 (n, g) = Some a"
    by blast
  have p1: "pop (result @ [objnum, generation]) = Inr (generation, result @ [objnum])"
    by (simp add: pop_def butlast_append)
  have p2: "pop (result @ [objnum]) = Inr (objnum, result)"
    by (simp add: pop_def)
  from assms(1) f p1 p2
  have "readarray tk (Suc fuel) (result @ [objnum, generation]) s
          = readarray tk fuel (result @ [Ref a]) s2"
    by simp
  with f t show ?thesis by blast
qed

text \<open>
  C7. The claim has an \<^verbatim>\<open>R\<close> collapsed exactly when the two preceding values are
  digit-like. \<^verbatim>\<open>readdict\<close> makes that test (line 80, \<^verbatim>\<open>value.isdigit() and
  tok.isdigit()\<close>); \<^verbatim>\<open>readarray\<close> makes none and pops two values at every \<^verbatim>\<open>R\<close>.
  For the array \<^verbatim>\<open>[-1 0 R]\<close>, where \<^verbatim>\<open>-1\<close> is not digit-like, the code returns an
  array of one reference and registers a placeholder for the identity \<open>(-1, 0)\<close>. For
  the dictionary \<^verbatim>\<open><< /A -1 0 R >>\<close> the sibling method keeps \<^verbatim>\<open>-1\<close> as the value of
  \<^verbatim>\<open>/A\<close>, logs two errors for the tokens that follow, and registers nothing.
\<close>

theorem readarray_collapses_signed_number:
  "\<not> isdigit ''-1''
   \<and> map_option (map_sum id (\<lambda>r. (fst r, heap (snd r))))
       (readarray (example_tk [''-1'', ''0'', ''R'', '']'']) (Suc 3) [] (empty_reader []))
     = Some (Inr (PdfArray [Ref 0], [PdfIndirect (- 1, 0)]))
   \<and> map_option (map_sum id (\<lambda>r. (fst r, heap (snd r), msgs (snd r))))
       (call_special (example_tk [''/A'', ''-1'', ''0'', ''R'', ''>>'']) (Suc 3) Sp_readdict
          (empty_reader []))
     = Some (Inr (PdfDict [(''/A'', PdfObject ''-1'')], [],
                  [Error ''Expected PDF /name object'', Error ''Expected PDF /name object'']))"
  by (simp add: numeral_3_eq_3 example_tk_def empty_reader_def next_tok_def
      special_get_def pop_def findindirect_def int_of_obj_def py_int_def strip_def is_space_def
      isdigit_def digit_val_def startswith_slash_def dict_set_def error_def)



section \<open>How the table, the deferred set and the heap evolve\<close>

text \<open>
  The part of the reader that the claims about resolution speak of: the table, the
  deferred set and the heap. \<open>ok\<close> is the invariant described below for \<open>table_ok\<close>;
  \<open>ext c c'\<close> says that the heap has only grown, that no cell has changed between
  placeholder and object, and that an identity resolved in \<open>c\<close> has the same address in
  \<open>c'\<close>; \<open>step\<close> is both: what every operation of the parser and the loader
  guarantees between the reader it gets and the reader it returns.
\<close>

type_synonym core = "(key \<rightharpoonup> nat) \<times> key set \<times> hobj list"

definition core :: "reader \<Rightarrow> core" where
  "core s = (indirect_objects s, deferred_objects s, heap s)"

definition placeholder_at :: "hobj list \<Rightarrow> nat \<Rightarrow> bool" where
  "placeholder_at h a \<longleftrightarrow> a < length h \<and> (case h ! a of PdfIndirect k \<Rightarrow> True | Obj p \<Rightarrow> False)"

definition ok :: "core \<Rightarrow> bool" where
  "ok c \<longleftrightarrow>
     (case c of (t, d, h) \<Rightarrow>
        (\<forall>k a. t k = Some a \<longrightarrow> a < length h)
        \<and> (\<forall>k. k \<in> d \<longleftrightarrow> (\<exists>a. t k = Some a \<and> placeholder_at h a)))"

definition ext :: "core \<Rightarrow> core \<Rightarrow> bool" where
  "ext c c' \<longleftrightarrow>
     (case c of (t, d, h) \<Rightarrow> case c' of (t', d', h') \<Rightarrow>
        length h \<le> length h'
        \<and> (\<forall>a<length h. placeholder_at h' a = placeholder_at h a)
        \<and> (\<forall>k a. t k = Some a \<and> a < length h \<and> \<not> placeholder_at h a \<longrightarrow> t' k = Some a))"

definition step :: "core \<Rightarrow> core \<Rightarrow> bool" where
  "step c c' \<longleftrightarrow> ext c c' \<and> (ok c \<longrightarrow> ok c')"

lemma is_placeholder_at: "is_placeholder s a = placeholder_at (heap s) a"
  by (auto simp: is_placeholder_def heap_cell_def placeholder_at_def split: hobj.splits)

lemma step_refl: "step c c"
  by (cases c) (simp add: step_def ext_def)

lemma placeholder_at_append:
  "a < length h \<Longrightarrow> placeholder_at (h @ x) a = placeholder_at h a"
  by (simp add: placeholder_at_def nth_append)

lemma ext_new_placeholder:
  assumes "ext c0 (t, d, h)" and "t k = None"
  shows "ext c0 (t(k \<mapsto> length h), insert k d, h @ [PdfIndirect k])"
proof -
  obtain t0 d0 h0 where c0: "c0 = (t0, d0, h0)" by (cases c0)
  from assms(1) have len: "length h0 \<le> length h"
    and cells: "\<And>a. a < length h0 \<Longrightarrow> placeholder_at h a = placeholder_at h0 a"
    and tab: "\<And>k a. t0 k = Some a \<Longrightarrow> a < length h0 \<Longrightarrow> \<not> placeholder_at h0 a \<Longrightarrow> t k = Some a"
    unfolding c0 ext_def by auto
  have "\<And>a. a < length h0 \<Longrightarrow> placeholder_at (h @ [PdfIndirect k]) a = placeholder_at h0 a"
    using len cells by (simp add: placeholder_at_append)
  moreover have "\<And>k' a. t0 k' = Some a \<Longrightarrow> a < length h0 \<Longrightarrow> \<not> placeholder_at h0 a
      \<Longrightarrow> (t(k \<mapsto> length h)) k' = Some a"
    using tab assms(2) by (metis fun_upd_other option.distinct(1))
  ultimately show ?thesis using len unfolding c0 ext_def by simp
qed

lemma ok_new_placeholder:
  assumes "ok (t, d, h)" and "t k = None"
  shows "ok (t(k \<mapsto> length h), insert k d, h @ [PdfIndirect k])"
proof -
  from assms(1) have rng: "\<And>k a. t k = Some a \<Longrightarrow> a < length h"
    and dd: "\<And>k. k \<in> d \<longleftrightarrow> (\<exists>a. t k = Some a \<and> placeholder_at h a)"
    unfolding ok_def by auto
  have new: "placeholder_at (h @ [PdfIndirect k]) (length h)"
    by (simp add: placeholder_at_def)
  have 1: "\<forall>k' a. (t(k \<mapsto> length h)) k' = Some a \<longrightarrow> a < length (h @ [PdfIndirect k])"
    using rng by (auto simp: less_Suc_eq)
  have 2: "\<forall>k'. k' \<in> insert k d \<longleftrightarrow>
      (\<exists>a. (t(k \<mapsto> length h)) k' = Some a \<and> placeholder_at (h @ [PdfIndirect k]) a)"
  proof
    fix k'
    show "k' \<in> insert k d \<longleftrightarrow>
      (\<exists>a. (t(k \<mapsto> length h)) k' = Some a \<and> placeholder_at (h @ [PdfIndirect k]) a)"
    proof (cases "k' = k")
      case True
      with new show ?thesis by simp
    next
      case False
      have "(\<exists>a. t k' = Some a \<and> placeholder_at (h @ [PdfIndirect k]) a)
            \<longleftrightarrow> (\<exists>a. t k' = Some a \<and> placeholder_at h a)"
        using rng placeholder_at_append by metis
      with False dd [of k'] show ?thesis by simp
    qed
  qed
  from 1 2 show ?thesis unfolding ok_def by simp
qed

lemma step_find:
  assumes "step c0 (core s)" and "findindirect x y s = Inr (a, s1)"
  shows "step c0 (core s1)"
proof -
  from assms(2) obtain n g where n: "int_of_obj (heap s) x = Inr n"
    and g: "int_of_obj (heap s) y = Inr g"
    by (auto simp: findindirect_def split: sum.splits)
  show ?thesis
  proof (cases "indirect_objects s (n, g)")
    case (Some b)
    with assms n g show ?thesis by (simp add: findindirect_def)
  next
    case None
    with assms(2) n g
    have c1: "core s1 = ((indirect_objects s)((n, g) \<mapsto> length (heap s)),
                         insert (n, g) (deferred_objects s), heap s @ [PdfIndirect (n, g)])"
      by (auto simp: findindirect_def core_def)
    from assms(1) have e: "ext c0 (indirect_objects s, deferred_objects s, heap s)"
      and o: "ok c0 \<longrightarrow> ok (indirect_objects s, deferred_objects s, heap s)"
      by (simp_all add: step_def core_def)
    have "step c0 ((indirect_objects s)((n, g) \<mapsto> length (heap s)),
                   insert (n, g) (deferred_objects s), heap s @ [PdfIndirect (n, g)])"
      using ext_new_placeholder [OF e None]
        ok_new_placeholder [of "indirect_objects s" "deferred_objects s" "heap s" "(n, g)"] o None
      by (auto simp: step_def)
    then show ?thesis by (simp add: c1)
  qed
qed

lemma core_next_tok: "next_tok tk s = Inr (t, s1) \<Longrightarrow> core s1 = core s"
  by (auto simp: next_tok_def core_def split: option.splits)

lemma core_error [simp]: "core (error m s) = core s"
  by (simp add: error_def core_def)

lemma core_warning [simp]: "core (warning m s) = core s"
  by (simp add: warning_def core_def)

lemma core_floc [simp]: "core (s\<lparr>floc := x\<rparr>) = core s"
  by (simp add: core_def)

lemma core_multiple: "core (snd (multiple tk n s)) = core s"
  by (induction n arbitrary: s) (simp_all add: next_tok_def split_beta core_def split: option.splits)


lemma step_trans: "step c0 c1 \<Longrightarrow> step c1 c2 \<Longrightarrow> step c0 c2"
proof -
  assume a: "step c0 c1" and b: "step c1 c2"
  obtain t0 d0 h0 where c0: "c0 = (t0, d0, h0)" by (cases c0)
  obtain t1 d1 h1 where c1: "c1 = (t1, d1, h1)" by (cases c1)
  obtain t2 d2 h2 where c2: "c2 = (t2, d2, h2)" by (cases c2)
  from a have l01: "length h0 \<le> length h1"
    and p01: "\<And>a. a < length h0 \<Longrightarrow> placeholder_at h1 a = placeholder_at h0 a"
    and t01: "\<And>k a. t0 k = Some a \<Longrightarrow> a < length h0 \<Longrightarrow> \<not> placeholder_at h0 a \<Longrightarrow> t1 k = Some a"
    unfolding step_def ext_def c0 c1 by auto
  from b have l12: "length h1 \<le> length h2"
    and p12: "\<And>a. a < length h1 \<Longrightarrow> placeholder_at h2 a = placeholder_at h1 a"
    and t12: "\<And>k a. t1 k = Some a \<Longrightarrow> a < length h1 \<Longrightarrow> \<not> placeholder_at h1 a \<Longrightarrow> t2 k = Some a"
    unfolding step_def ext_def c1 c2 by auto
  have "ext c0 c2"
    unfolding ext_def c0 c2 using l01 l12 p01 p12 t01 t12
    by (auto simp: less_le_trans)
  with a b show ?thesis by (simp add: step_def)
qed

lemma find_rel: "findindirect x y s = Inr (a, s1) \<Longrightarrow> step (core s) (core s1)"
  using step_find [OF step_refl] .

lemma parser_rel:
  "(\<forall>result s v s'. readarray tk n result s = Some (Inr (v, s'))
        \<longrightarrow> step (core s) (core s'))
   \<and> (\<forall>tok d s v s'. readdict_loop tk n tok d s = Some (Inr (v, s'))
        \<longrightarrow> step (core s) (core s'))"
proof (induction n)
  case 0
  show ?case by simp
next
  case (Suc n)
  from Suc.IH have ra: "\<And>result s v s'.
      readarray tk n result s = Some (Inr (v, s')) \<Longrightarrow> step (core s) (core s')"
    and rd: "\<And>tok d s v s'.
      readdict_loop tk n tok d s = Some (Inr (v, s')) \<Longrightarrow> step (core s) (core s')"
    by blast+
  have cs: "step (core s) (core s')"
    if "call_special tk n func s = Some (Inr (v, s'))" for func s v s'
    using that
    by (cases func) (auto split: sum.splits dest!: core_next_tok ra rd simp: step_refl)
  have A: "step (core s) (core s')"
    if run: "readarray tk (Suc n) result s = Some (Inr (v, s'))" for result s v s'
    using that
    apply (auto split: if_splits sum.splits option.splits
        dest!: core_next_tok ra rd cs find_rel simp: step_refl)
    apply (blast intro: step_trans)+
    done
  have D: "step (core s) (core s')"
    if run: "readdict_loop tk (Suc n) tok d s = Some (Inr (v, s'))" for tok d s v s'
    using that
    apply (auto split: if_splits sum.splits option.splits
        dest!: core_next_tok ra rd cs find_rel simp: step_refl)
    apply (blast intro: step_trans)+
    done
  from A D show ?case by blast
qed

lemma readarray_rel:
  "readarray tk n result s = Some (Inr (v, s')) \<Longrightarrow> step (core s) (core s')"
  using parser_rel [of tk n] by blast

lemma readdict_loop_rel:
  "readdict_loop tk n tok d s = Some (Inr (v, s')) \<Longrightarrow> step (core s) (core s')"
  using parser_rel [of tk n] by blast

lemma call_special_rel:
  "call_special tk n func s = Some (Inr (v, s')) \<Longrightarrow> step (core s) (core s')"
  by (cases func)
     (auto split: sum.splits dest!: core_next_tok readarray_rel readdict_loop_rel simp: step_refl)

lemma parse_object_rel:
  "parse_object tk n s = Some (Inr (v, s')) \<Longrightarrow> step (core s) (core s')"
  by (auto simp: parse_object_def step_refl split: sum.splits option.splits
      dest!: core_next_tok call_special_rel)

lemma core_read_header: "read_header tk key offset s = Inr (found, s') \<Longrightarrow> core s' = core s"
  using core_multiple [of tk 3 "s\<lparr>floc := offset\<rparr>"]
  by (auto simp: read_header_def Let_def split_beta split: if_splits sum.splits
      dest!: core_next_tok)

lemma core_findstream: "findstream tok s = Inr (st, s') \<Longrightarrow> core s' = core s"
  by (auto simp: findstream_def Let_def split: sum.splits if_splits)

lemma core_readstream: "core (snd (readstream tk slen st obj s)) = core s"
  using core_multiple [of tk 2 "s\<lparr>floc := st + slen\<rparr>"]
  by (simp add: readstream_def Let_def split_beta)

lemma core_recover_value: "core (snd (recover_value v s)) = core s"
  by (simp add: recover_value_def split: pdfobj.splits)

definition pending :: "core \<Rightarrow> key \<Rightarrow> bool" where
  "pending c key \<longleftrightarrow>
     (case c of (t, d, h) \<Rightarrow> \<forall>a. t key = Some a \<longrightarrow> a < length h \<longrightarrow> placeholder_at h a)"

lemma store_rel:
  assumes "step c0 (t, d, h)" and "pending c0 key"
  shows "step c0 (t(key \<mapsto> length h), d - {key}, h @ [Obj p])"
proof -
  obtain t0 d0 h0 where c0: "c0 = (t0, d0, h0)" by (cases c0)
  from assms(1) have len: "length h0 \<le> length h"
    and cells: "\<And>a. a < length h0 \<Longrightarrow> placeholder_at h a = placeholder_at h0 a"
    and tab: "\<And>k a. t0 k = Some a \<Longrightarrow> a < length h0 \<Longrightarrow> \<not> placeholder_at h0 a \<Longrightarrow> t k = Some a"
    and okk: "ok c0 \<longrightarrow> ok (t, d, h)"
    unfolding c0 step_def ext_def by auto
  from assms(2) have pend: "\<And>a. t0 key = Some a \<Longrightarrow> a < length h0 \<Longrightarrow> placeholder_at h0 a"
    unfolding c0 pending_def by auto
  have e: "ext c0 (t(key \<mapsto> length h), d - {key}, h @ [Obj p])"
    unfolding c0 ext_def
    using len cells tab pend by (auto simp: placeholder_at_append)
  have o: "ok (t(key \<mapsto> length h), d - {key}, h @ [Obj p])" if "ok (t, d, h)"
  proof -
    from that have rng: "\<And>k a. t k = Some a \<Longrightarrow> a < length h"
      and dd: "\<And>k. k \<in> d \<longleftrightarrow> (\<exists>a. t k = Some a \<and> placeholder_at h a)"
      unfolding ok_def by auto
    have new: "\<not> placeholder_at (h @ [Obj p]) (length h)"
      by (simp add: placeholder_at_def)
    have 1: "\<forall>k' a. (t(key \<mapsto> length h)) k' = Some a \<longrightarrow> a < length (h @ [Obj p])"
      using rng by (auto simp: less_Suc_eq)
    have 2: "\<forall>k'. k' \<in> d - {key} \<longleftrightarrow>
        (\<exists>a. (t(key \<mapsto> length h)) k' = Some a \<and> placeholder_at (h @ [Obj p]) a)"
    proof
      fix k'
      show "k' \<in> d - {key} \<longleftrightarrow>
        (\<exists>a. (t(key \<mapsto> length h)) k' = Some a \<and> placeholder_at (h @ [Obj p]) a)"
      proof (cases "k' = key")
        case True
        with new show ?thesis by simp
      next
        case False
        have "(\<exists>a. t k' = Some a \<and> placeholder_at (h @ [Obj p]) a)
              \<longleftrightarrow> (\<exists>a. t k' = Some a \<and> placeholder_at h a)"
          using rng placeholder_at_append by metis
        with False dd [of k'] show ?thesis by simp
      qed
    qed
    from 1 2 show ?thesis unfolding ok_def by simp
  qed
  from e o okk show ?thesis by (simp add: step_def)
qed

lemma update_rel:
  assumes "step c0 (t, d, h)" and "a < length h" and "\<not> placeholder_at h a"
  shows "step c0 (t, d, h[a := Obj p])"
proof -
  have same: "placeholder_at (h[a := Obj p]) b = placeholder_at h b" for b
    using assms(2,3) by (cases "b = a") (auto simp: placeholder_at_def)
  from assms(1) show ?thesis
    by (cases c0) (simp add: step_def ext_def ok_def same)
qed

lemma map_sum_id_Inr: "map_sum id g x = Inr y \<longleftrightarrow> (\<exists>z. x = Inr z \<and> y = g z)"
  by (cases x) auto

lemma obj_length_rel:
  assumes "\<forall>k s r s'. load k s = Some (Inr (r, s')) \<longrightarrow> step (core s) (core s')"
    and "obj_length load v s = Some (Inr (slen, s'))"
  shows "step (core s) (core s')"
proof -
  from assms(1) have g: "\<And>k s r s'. load k s = Some (Inr (r, s')) \<Longrightarrow> step (core s) (core s')"
    by blast
  from assms(2) show ?thesis
    by (auto simp: obj_length_def step_refl map_sum_id_Inr
        split: pdfobj.splits option.splits hobj.splits sum.splits
        dest!: g)
qed

lemma ext_loaded:
  assumes "step (core s) (core s')" and "indirect_objects s key = Some a"
    and "a < length (heap s)" and "\<not> placeholder_at (heap s) a"
  shows "indirect_objects s' key = Some a \<and> a < length (heap s') \<and> \<not> placeholder_at (heap s') a"
  using assms unfolding step_def ext_def core_def by (cases key) auto

lemma load_stream_rel:
  assumes good: "\<forall>k s r s'. load k s = Some (Inr (r, s')) \<longrightarrow> step (core s) (core s')"
    and base: "step c0 (core s)"
    and tab: "indirect_objects s key = Some a"
    and rng: "a < length (heap s)" and obj: "\<not> placeholder_at (heap s) a"
    and run: "load_stream tk load v a ob tok s = Some (Inr (r, s'))"
  shows "step c0 (core s') \<and> r = Some a \<and> indirect_objects s' key = Some a
         \<and> \<not> is_placeholder s' a"
proof -
  from run obtain st s1 slen s2 where
    fs: "findstream tok s = Inr (st, s1)"
    and ol: "obj_length load v s1 = Some (Inr (slen, s2))"
    and fin: "r = Some a"
      "s' = (snd (readstream tk slen st ob s2))
              \<lparr>heap := (heap (snd (readstream tk slen st ob s2)))
                         [a := Obj (fst (readstream tk slen st ob s2))]\<rparr>"
    by (auto simp: load_stream_def split: sum.splits option.splits prod.splits)
  let ?s3 = "snd (readstream tk slen st ob s2)"
  from core_findstream [OF fs] have c1: "core s1 = core s" .
  from obj_length_rel [OF good ol] have "step (core s1) (core s2)" .
  with c1 have s12: "step (core s) (core s2)" by simp
  have c3: "core ?s3 = core s2" by (rule core_readstream)
  from ext_loaded [OF s12 tab rng obj]
  have l2: "indirect_objects s2 key = Some a" "a < length (heap s2)"
    "\<not> placeholder_at (heap s2) a" by simp_all
  from c3 have eqs: "indirect_objects ?s3 = indirect_objects s2"
    "deferred_objects ?s3 = deferred_objects s2" "heap ?s3 = heap s2"
    by (simp_all add: core_def)
  from step_trans [OF base s12]
  have "step c0 (indirect_objects s2, deferred_objects s2, heap s2)" by (simp add: core_def)
  from update_rel [OF this l2(2,3), of "fst (readstream tk slen st ob s2)"]
  have "step c0 (core s')" by (simp add: fin(2) core_def eqs)
  moreover have "indirect_objects s' key = Some a" using l2(1) by (simp add: fin(2) eqs)
  moreover have "\<not> is_placeholder s' a"
    using l2(2) by (simp add: is_placeholder_at fin(2) eqs placeholder_at_def)
  ultimately show ?thesis using fin(1) by simp
qed

lemma finish_object_rel:
  assumes good: "\<forall>k s r s'. load k s = Some (Inr (r, s')) \<longrightarrow> step (core s) (core s')"
    and base: "step c0 (core s)" and pend: "pending c0 key"
    and run: "finish_object tk load key v s = Some (Inr (r, s'))"
  shows "step c0 (core s')
         \<and> (\<exists>b. r = Some b \<and> indirect_objects s' key = Some b \<and> \<not> is_placeholder s' b)"
proof -
  let ?a = "length (heap s)"
  let ?ob = "(new_pobj v)\<lparr>indirect := Some key\<rparr>"
  let ?sa = "s\<lparr>deferred_objects := deferred_objects s - {key},
               indirect_objects := (indirect_objects s)(key \<mapsto> ?a),
               heap := heap s @ [Obj ?ob]\<rparr>"
  from run have inset: "key \<in> deferred_objects s" and nn: "v \<noteq> PyNone"
    by (auto simp: finish_object_def split: if_splits)
  have sa: "store_object key ?ob (s\<lparr>deferred_objects := deferred_objects s - {key}\<rparr>) = (?a, ?sa)"
    by (simp add: store_object_def)
  from base have "step c0 (indirect_objects s, deferred_objects s, heap s)"
    by (simp add: core_def)
  from store_rel [OF this pend, of ?ob]
  have st_a: "step c0 (core ?sa)" by (simp add: core_def)
  from run inset nn sa obtain tok s1 where nt: "next_tok tk ?sa = Inr (tok, s1)"
    by (auto simp: finish_object_def Let_def split: sum.splits)
  from core_next_tok [OF nt] have c1: "core s1 = core ?sa" .
  then have eq1: "indirect_objects s1 = indirect_objects ?sa"
    "deferred_objects s1 = deferred_objects ?sa" "heap s1 = heap ?sa"
    by (simp_all add: core_def)
  from st_a c1 have st1: "step c0 (core s1)" by simp
  have tab1: "indirect_objects s1 key = Some ?a" by (simp add: eq1)
  have rng1: "?a < length (heap s1)" by (simp add: eq1)
  have ob1: "\<not> placeholder_at (heap s1) ?a" by (simp add: eq1 placeholder_at_def)
  consider (endobj) "tok = ''endobj''"
    | (stream) "tok \<noteq> ''endobj''" "(case v of PdfDict d \<Rightarrow> True | _ \<Rightarrow> False) \<and> tok = ''stream''"
    | (broken) "tok \<noteq> ''endobj''" "\<not> ((case v of PdfDict d \<Rightarrow> True | _ \<Rightarrow> False) \<and> tok = ''stream'')"
    by blast
  then show ?thesis
  proof cases
    case endobj
    with run inset nn sa nt have "r = Some ?a" "s' = s1"
      by (simp_all add: finish_object_def Let_def)
    with st1 tab1 rng1 ob1 show ?thesis
      by (simp add: is_placeholder_at)
  next
    case stream
    with run inset nn sa nt
    have "load_stream tk load v ?a ?ob tok s1 = Some (Inr (r, s'))"
      by (simp add: finish_object_def Let_def)
    from load_stream_rel [OF good st1 tab1 rng1 ob1 this] show ?thesis by blast
  next
    case broken
    let ?v2 = "fst (recover_value v s1)"
    let ?s2 = "snd (recover_value v s1)"
    let ?ob2 = "(new_pobj ?v2)\<lparr>indirect := Some key\<rparr>"
    from broken run inset nn sa nt
    have r: "r = Some (length (heap ?s2))"
      and s': "s' = ?s2\<lparr>indirect_objects := (indirect_objects ?s2)(key \<mapsto> length (heap ?s2)),
                       heap := heap ?s2 @ [Obj ?ob2]\<rparr>"
      by (auto simp: finish_object_def Let_def store_object_def split_beta)
    have c2: "core ?s2 = core s1" by (rule core_recover_value)
    then have eq2: "indirect_objects ?s2 = indirect_objects s1"
      "deferred_objects ?s2 = deferred_objects s1" "heap ?s2 = heap s1"
      by (simp_all add: core_def)
    from st1 have "step c0 (indirect_objects s1, deferred_objects s1, heap s1)"
      by (simp add: core_def)
    from store_rel [OF this pend, of ?ob2]
    have "step c0 (core s')"
      by (simp add: s' core_def eq2 eq1)
    moreover have "indirect_objects s' key = Some (length (heap ?s2))" by (simp add: s')
    moreover have "\<not> is_placeholder s' (length (heap ?s2))"
      by (simp add: is_placeholder_at s' placeholder_at_def)
    ultimately show ?thesis using r by blast
  qed
qed

lemma loadindirect_rel:
  "loadindirect tk n key s = Some (Inr (r, s'))
    \<Longrightarrow> step (core s) (core s')
        \<and> (case r of None \<Rightarrow> core s' = core s
            | Some b \<Rightarrow> indirect_objects s' key = Some b \<and> \<not> is_placeholder s' b)"
proof (induction n arbitrary: key s r s')
  case 0
  then show ?case by simp
next
  case (Suc n)
  have good: "\<forall>k s r s'. loadindirect tk n k s = Some (Inr (r, s')) \<longrightarrow> step (core s) (core s')"
    using Suc.IH by blast
  show ?case
  proof (cases "indirect_objects s key")
    case None
    with Suc.prems have "r = None" and "s' = s" by simp_all
    then show ?thesis by (simp add: step_refl)
  next
    case (Some a)
    show ?thesis
    proof (cases "is_placeholder s a")
      case False
      with Some Suc.prems have "r = Some a" and "s' = s" by simp_all
      with Some False show ?thesis by (simp add: step_refl)
    next
      case True
      have pend: "pending (core s) key"
        using Some True by (simp add: pending_def core_def is_placeholder_at)
      show ?thesis
      proof (cases "obj_offsets s key")
        case None
        with Some True Suc.prems show ?thesis by (auto simp: step_refl)
      next
        case off: (Some offset)
        show ?thesis
        proof (cases "offset = 0")
          case True
          with off Some \<open>is_placeholder s a\<close> Suc.prems show ?thesis by (auto simp: step_refl)
        next
          case False
          with off Some \<open>is_placeholder s a\<close> Suc.prems
          obtain found s1 where rh: "read_header tk key offset s = Inr (found, s1)"
            and rest: "(if \<not> found then Some (Inr (None, s1))
                else (case parse_object tk n s1 of
                         None \<Rightarrow> None
                       | Some (Inl e) \<Rightarrow> Some (Inl e)
                       | Some (Inr (v, s2)) \<Rightarrow> finish_object tk (loadindirect tk n) key v s2))
               = Some (Inr (r, s'))"
            by (auto split: sum.splits)
          from core_read_header [OF rh] have c1: "core s1 = core s" .
          show ?thesis
          proof (cases found)
            case False
            with rest c1 show ?thesis by (auto simp: step_refl)
          next
            case True
            with rest obtain v s2 where po: "parse_object tk n s1 = Some (Inr (v, s2))"
              and fo: "finish_object tk (loadindirect tk n) key v s2 = Some (Inr (r, s'))"
              by (auto split: option.splits sum.splits)
            from parse_object_rel [OF po] c1 have "step (core s) (core s2)" by simp
            from finish_object_rel [OF good this pend fo] show ?thesis by auto
          qed
        qed
      qed
    qed
  qed
qed

lemma load_keys_rel:
  "load_keys tk fuel keys s = Some (Inr s') \<Longrightarrow> step (core s) (core s')"
proof (induction keys arbitrary: s)
  case Nil
  then show ?case by (simp add: step_refl)
next
  case (Cons key keys)
  from Cons.prems obtain r s1 where l: "loadindirect tk fuel key s = Some (Inr (r, s1))"
    and rest: "load_keys tk fuel keys s1 = Some (Inr s')"
    by (auto split: option.splits sum.splits)
  from loadindirect_rel [OF l] have "step (core s) (core s1)" by simp
  with Cons.IH [OF rest] show ?case by (blast intro: step_trans)
qed

lemma read_all_rel:
  "read_all iter tk fuel prev s = Some (Inr s') \<Longrightarrow> step (core s) (core s')"
proof (induction fuel arbitrary: prev s)
  case 0
  then show ?case by simp
next
  case (Suc fuel)
  show ?case
  proof (cases "deferred_objects s - prev = {}")
    case True
    with Suc.prems show ?thesis by (simp add: step_refl)
  next
    case False
    with Suc.prems obtain s1
      where l: "load_keys tk fuel (iter (deferred_objects s - prev)) s = Some (Inr s1)"
      and rest: "read_all iter tk fuel (prev \<union> deferred_objects s) s1 = Some (Inr s')"
      by (auto simp: Let_def split: option.splits sum.splits)
    from load_keys_rel [OF l] Suc.IH [OF rest] show ?thesis by (blast intro: step_trans)
  qed
qed

text \<open>
  The invariant of the table: every address it holds is in the heap, and the deferred set
  is exactly the set of identities whose table entry is an unresolved placeholder.
\<close>

definition table_ok :: "reader \<Rightarrow> bool" where
  "table_ok s \<longleftrightarrow>
     (\<forall>k a. indirect_objects s k = Some a \<longrightarrow> a < length (heap s))
     \<and> (\<forall>k. k \<in> deferred_objects s
            \<longleftrightarrow> (\<exists>a. indirect_objects s k = Some a \<and> is_placeholder s a))"

lemma table_ok_core: "table_ok s = ok (core s)"
  by (simp add: table_ok_def ok_def core_def is_placeholder_at)

text \<open>
  A file with one object, 42, as object 5 at offset 9; a reader that has met a reference
  to it; a reader that has met a reference to an object 9 without an offset; a reader
  whose table holds object 7 although no offset is recorded for it.
\<close>

definition example_object_file :: string where
  "example_object_file =
     ''%PDF-1.4'' @ [CHR 0x0A] @ ''5 0 obj'' @ [CHR 0x0A] @ ''42'' @ [CHR 0x0A] @
     ''endobj'' @ [CHR 0x0A]"

definition example_object_reader :: reader where
  "example_object_reader =
     (empty_reader example_object_file)
       \<lparr>obj_offsets := [(5, 0) \<mapsto> 9], indirect_objects := [(5, 0) \<mapsto> 0],
        deferred_objects := {(5, 0)}, heap := [PdfIndirect (5, 0)]\<rparr>"

definition example_pending_reader :: reader where
  "example_pending_reader =
     (empty_reader example_object_file)
       \<lparr>indirect_objects := [(9, 0) \<mapsto> 0], deferred_objects := {(9, 0)},
        heap := [PdfIndirect (9, 0)]\<rparr>"

definition example_member_reader :: reader where
  "example_member_reader =
     (empty_reader example_object_file)
       \<lparr>indirect_objects := [(7, 0) \<mapsto> 0],
        heap := [Obj ((new_pobj (PdfObject ''42''))\<lparr>indirect := Some (7, 0)\<rparr>)]\<rparr>"

lemma example_load:
  "loadindirect ws_tk 2 (5, 0) example_object_reader =
     Some (Inr (Some 1,
       example_object_reader
         \<lparr>floc := 26, tokstart := 20,
          deferred_objects := {},
          indirect_objects := [(5, 0) \<mapsto> 1],
          heap := [PdfIndirect (5, 0),
                   Obj ((new_pobj (PdfObject ''42''))\<lparr>indirect := Some (5, 0)\<rparr>)]\<rparr>))"
  by (simp add: numeral_2_eq_2 example_object_reader_def example_object_file_def
      empty_reader_def is_placeholder_def heap_cell_def read_header_def numeral_3_eq_3
      next_tok_def ws_tk_def is_space_def Let_def isdigit_def py_int_def strip_def
      digit_val_def parse_object_def special_get_def finish_object_def store_object_def
      new_pobj_def)

lemma int_of_obj_append:
  "int_of_obj h x = Inr i \<Longrightarrow> int_of_obj (h @ h') x = Inr i"
  by (auto simp: int_of_obj_def nth_append split: pdfobj.splits if_splits)

text \<open>
  C4. Resolution is idempotent. A second \<^verbatim>\<open>findindirect\<close> for an identity returns the
  same address (the same placeholder instance) and changes nothing. Once a load has
  returned a value, loading the identity again returns the same address and leaves the
  whole reader as it is: cursor, log, table and heap, so nothing is parsed a second time.
\<close>

theorem resolution_idempotent:
  "(findindirect objnum gennum s = Inr (a, s1)
      \<longrightarrow> findindirect objnum gennum s1 = Inr (a, s1))
   \<and> (loadindirect tk fuel key s' = Some (Inr (Some b, s2))
      \<longrightarrow> loadindirect tk (Suc fuel') key s2 = Some (Inr (Some b, s2)))"
proof (intro conjI impI)
  assume f: "findindirect objnum gennum s = Inr (a, s1)"
  then obtain n g where n: "int_of_obj (heap s) objnum = Inr n"
    and g: "int_of_obj (heap s) gennum = Inr g"
    by (auto simp: findindirect_def split: sum.splits)
  show "findindirect objnum gennum s1 = Inr (a, s1)"
  proof (cases "indirect_objects s (n, g)")
    case (Some c)
    with f n g show ?thesis by (auto simp: findindirect_def)
  next
    case None
    with f n g have a: "a = length (heap s)"
      and s1: "s1 = s\<lparr>indirect_objects := (indirect_objects s)((n, g) \<mapsto> length (heap s)),
                      deferred_objects := insert (n, g) (deferred_objects s),
                      heap := heap s @ [PdfIndirect (n, g)]\<rparr>"
      by (auto simp: findindirect_def)
    from n g have "int_of_obj (heap s1) objnum = Inr n" "int_of_obj (heap s1) gennum = Inr g"
      by (simp_all add: s1 int_of_obj_append)
    moreover have "indirect_objects s1 (n, g) = Some a" by (simp add: s1 a)
    ultimately show ?thesis by (simp add: findindirect_def)
  qed
next
  assume "loadindirect tk fuel key s' = Some (Inr (Some b, s2))"
  from loadindirect_rel [OF this]
  have "indirect_objects s2 key = Some b" and "\<not> is_placeholder s2 b" by simp_all
  then show "loadindirect tk (Suc fuel') key s2 = Some (Inr (Some b, s2))" by simp
qed

theorem resolution_idempotent_witness:
  "map_sum id fst (findindirect (PdfObject ''12'') (PdfObject ''0'') (empty_reader [])) = Inr 0
   \<and> map_sum id fst
        (findindirect (PdfObject ''12'') (PdfObject ''0'')
           (snd (projr (findindirect (PdfObject ''12'') (PdfObject ''0'') (empty_reader [])))))
       = Inr 0
   \<and> map_option (map_sum id fst) (loadindirect ws_tk 2 (5, 0) example_object_reader)
       = Some (Inr (Some 1))
   \<and> map_option (map_sum id fst)
        (loadindirect ws_tk 1 (5, 0)
           (snd (projr (the (loadindirect ws_tk 2 (5, 0) example_object_reader)))))
       = Some (Inr (Some 1))"
proof -
  obtain s1 where f: "findindirect (PdfObject ''12'') (PdfObject ''0'') (empty_reader []) = Inr (0, s1)"
    by (simp add: findindirect_def int_of_obj_def py_int_def strip_def is_space_def
        isdigit_def digit_val_def empty_reader_def)
  obtain s2 where l: "loadindirect ws_tk 2 (5, 0) example_object_reader = Some (Inr (Some 1, s2))"
    using example_load by simp
  from resolution_idempotent
    [where objnum = "PdfObject ''12''" and gennum = "PdfObject ''0''" and s = "empty_reader []"
       and a = 0 and ?s1.0 = s1 and tk = ws_tk and fuel = 2 and key = "(5, 0)"
       and s' = example_object_reader and b = 1 and ?s2.0 = s2 and fuel' = 0]
    f l
  show ?thesis by simp
qed

text \<open>
  C3 (as amended). For an identity with no entry in the object-offset map, a load returns
  at once and never raises. If the identity's table entry is an unresolved placeholder,
  it logs a warning and yields the missing value; if the identity has no table entry, it
  yields the missing value without a warning; if the table already holds a resolved value
  (as for a member of an object stream, which has no offset of its own), it returns that
  value. Table, deferred set and heap are as before.
\<close>

theorem load_without_offset:
  assumes "obj_offsets s key = None"
  shows "loadindirect tk (Suc fuel) key s =
           Some (Inr (case indirect_objects s key of
                        None \<Rightarrow> (None, s)
                      | Some a \<Rightarrow>
                          if is_placeholder s a
                          then (None, warning ''Did not find PDF object'' s)
                          else (Some a, s)))"
  using assms by (simp split: option.splits)

theorem load_without_offset_witness:
  "obj_offsets example_pending_reader (9, 0) = None
   \<and> is_placeholder example_pending_reader 0
   \<and> map_option (map_sum id (\<lambda>r. (fst r, msgs (snd r))))
       (loadindirect ws_tk 1 (9, 0) example_pending_reader)
     = Some (Inr (None, [Warning ''Did not find PDF object'']))"
proof -
  have o: "obj_offsets example_pending_reader (9, 0) = None"
    by (simp add: example_pending_reader_def empty_reader_def)
  have p: "is_placeholder example_pending_reader 0"
    by (simp add: example_pending_reader_def empty_reader_def is_placeholder_def heap_cell_def)
  have t: "indirect_objects example_pending_reader (9, 0) = Some 0"
    by (simp add: example_pending_reader_def empty_reader_def)
  have m: "msgs example_pending_reader = []"
    by (simp add: example_pending_reader_def empty_reader_def)
  from load_without_offset [OF o, of ws_tk 0] o p t m show ?thesis
    by (simp add: warning_def)
qed

text \<open>
  The claim as first stated (every identity without an offset resolves to the missing
  value, with a warning) fails for an identity that the table already holds: object 7
  was put there as a member of an object stream (lines 298 to 305), it has no offset,
  and the load returns the object at address 0 and logs nothing. For object 8, which
  the table does not know, the load yields the missing value, again without a warning.
\<close>

theorem load_without_offset_counterexample:
  "obj_offsets example_member_reader (7, 0) = None
   \<and> map_option (map_sum id (\<lambda>r. (fst r, msgs (snd r))))
       (loadindirect ws_tk 1 (7, 0) example_member_reader)
     = Some (Inr (Some 0, []))
   \<and> obj_offsets example_member_reader (8, 0) = None
   \<and> map_option (map_sum id (\<lambda>r. (fst r, msgs (snd r))))
       (loadindirect ws_tk 1 (8, 0) example_member_reader)
     = Some (Inr (None, []))"
  by (simp add: example_member_reader_def empty_reader_def is_placeholder_def heap_cell_def)

text \<open>
  C2 (as amended). An identity is in the deferred set exactly as long as its table entry
  is an unresolved placeholder; \<^verbatim>\<open>findindirect\<close>, \<^verbatim>\<open>loadindirect\<close> and \<^verbatim>\<open>read_all\<close>
  keep it so.
  A load attempt on a deferred identity that returns a value has removed the identity
  from the deferred set (line 218, when the value is stored). A load attempt that fails
  (no offset recorded, or the object's header not found) returns the missing value and
  leaves the identity in the deferred set: the code has no step that marks an identity
  unresolvable, which is why \<^verbatim>\<open>read_all\<close> keeps the set \<^verbatim>\<open>prev\<close> of identities
  already tried.
\<close>

theorem deferred_until_resolved:
  assumes "table_ok s"
  shows "(findindirect objnum gennum s = Inr (a, s1)
            \<longrightarrow> table_ok s1 \<and> deferred_objects s \<subseteq> deferred_objects s1)
       \<and> (loadindirect tk fuel key s = Some (Inr (r, s'))
            \<longrightarrow> table_ok s'
                \<and> (key \<in> deferred_objects s \<longrightarrow> (key \<in> deferred_objects s' \<longleftrightarrow> r = None)))
       \<and> (read_all iter tk fuel prev s = Some (Inr s2) \<longrightarrow> table_ok s2)"
proof (intro conjI impI)
  assume "read_all iter tk fuel prev s = Some (Inr s2)"
  from read_all_rel [OF this] assms show "table_ok s2"
    by (simp add: step_def table_ok_core)
next
  assume f: "findindirect objnum gennum s = Inr (a, s1)"
  from find_rel [OF f] assms show "table_ok s1"
    by (simp add: step_def table_ok_core)
  from f show "deferred_objects s \<subseteq> deferred_objects s1"
    by (auto simp: findindirect_def split: sum.splits option.splits)
next
  assume l: "loadindirect tk fuel key s = Some (Inr (r, s'))"
  from loadindirect_rel [OF l] assms show ok': "table_ok s'"
    by (simp add: step_def table_ok_core)
  assume d: "key \<in> deferred_objects s"
  show "key \<in> deferred_objects s' \<longleftrightarrow> r = None"
  proof (cases r)
    case None
    with loadindirect_rel [OF l] have "core s' = core s" by simp
    with d None show ?thesis by (simp add: core_def)
  next
    case (Some b)
    with loadindirect_rel [OF l]
    have "indirect_objects s' key = Some b" and "\<not> is_placeholder s' b" by simp_all
    with ok' have "key \<notin> deferred_objects s'" unfolding table_ok_def by (cases key) auto
    with Some show ?thesis by simp
  qed
qed

theorem deferred_until_resolved_witness:
  "table_ok example_object_reader \<and> (5, 0) \<in> deferred_objects example_object_reader
   \<and> map_option (map_sum id (\<lambda>r. (fst r, (5, 0) \<in> deferred_objects (snd r), table_ok (snd r))))
       (loadindirect ws_tk 2 (5, 0) example_object_reader)
     = Some (Inr (Some 1, False, True))"
proof -
  have t: "table_ok example_object_reader"
    by (auto simp: table_ok_def example_object_reader_def empty_reader_def is_placeholder_def
        heap_cell_def split: if_splits)
  have d: "(5, 0) \<in> deferred_objects example_object_reader"
    by (simp add: example_object_reader_def empty_reader_def)
  obtain s2 where l: "loadindirect ws_tk 2 (5, 0) example_object_reader = Some (Inr (Some 1, s2))"
    using example_load by simp
  from deferred_until_resolved [OF t, where tk = ws_tk and fuel = 2 and key = "(5, 0)"
      and r = "Some 1" and s' = s2] l t d
  show ?thesis by simp
qed

text \<open>
  The claim as first stated (no identity remains in the deferred set after a load attempt
  on it completes) fails for an identity without an offset: the attempt on object 9
  completes with the missing value, and the identity is still deferred; so it is after
  \<^verbatim>\<open>read_all\<close> has made its attempt and returned.
\<close>

theorem deferred_after_failed_load_counterexample:
  "(9, 0) \<in> deferred_objects example_pending_reader
   \<and> map_option (map_sum id (\<lambda>r. (fst r, (9, 0) \<in> deferred_objects (snd r))))
       (loadindirect ws_tk 1 (9, 0) example_pending_reader)
     = Some (Inr (None, True))
   \<and> map_option (map_sum id (\<lambda>s. ((9, 0) \<in> deferred_objects s, msgs s)))
       (read_all sorted_list_of_set ws_tk 2 {} example_pending_reader)
     = Some (Inr (True, [Warning ''Did not find PDF object'']))"
  by (simp add: numeral_2_eq_2 example_pending_reader_def empty_reader_def is_placeholder_def
      heap_cell_def warning_def Let_def)


end
